theory Spec2Isabelle
  imports Complex_Main "HOL-Library.Word"
begin

section \<open>Constants and global variables of prepack\<close>

text \<open>
  The two sources, \<^verbatim>\<open>prepack.c\<close> and \<^verbatim>\<open>prepack_lite.c\<close>, declare the same
  constants, the same table and the same global variables. \<^verbatim>\<open>byte\<close> is
  \<^verbatim>\<open>uint8_t\<close>: an 8-bit word, whose arithmetic wraps modulo 256.
\<close>

type_synonym byte = "8 word"

definition blocksize :: nat where
  "blocksize = 24576"

definition boost :: nat where
  "boost = 24"

definition totalChannels :: nat where
  "totalChannels = 15"

definition breakpoint :: nat where
  "breakpoint = 10"

definition indexToChannel :: "byte list" where
  "indexToChannel = [0, 1, 2, 3, 4, 5, 6, 7, 8, 1, 2, 3, 4, 6, 8]"

definition rate :: nat where
  "rate = 6"

text \<open>
  The global variables. \<^verbatim>\<open>weight\<close> and \<^verbatim>\<open>d\<close> are C \<^verbatim>\<open>int\<close>s: they are
  mathematical integers here, and the theorems below show that \<open>weight\<close> stays within
  \<open>[-1280, 1280]\<close> and \<open>d\<close> within \<open>[0, 7]\<close>, far from the limits of a 32-bit
  \<^verbatim>\<open>int\<close>. The three history arrays have 8 entries, \<^verbatim>\<open>freq\<close> has 15 rows of 256
  counters. \<^verbatim>\<open>fileLength\<close> is the \<^verbatim>\<open>double\<close> that receives the result of
  \<^verbatim>\<open>ftell\<close> at the end of the file: a byte count.
\<close>

record globals =
  weight :: int
  previous :: "byte list"
  previousByte :: "byte list"
  secondPreviousByte :: "byte list"
  d :: int
  freq :: "nat list list"
  fileLength :: nat

text \<open>The initial values of the globals when the program starts (C zero-initialisation).\<close>

definition init_globals :: globals where
  "init_globals =
     \<lparr> weight = 0,
       previous = replicate 8 0,
       previousByte = replicate 8 0,
       secondPreviousByte = replicate 8 0,
       d = 0,
       freq = replicate 15 (replicate 256 0),
       fileLength = 0 \<rparr>"

section \<open>The filters\<close>

text \<open>
  \<^verbatim>\<open>deltaEnc\<close> and \<^verbatim>\<open>deltaDec\<close>. The C expression \<^verbatim>\<open>previous[i] - b\<close> is computed
  in \<^verbatim>\<open>int\<close> and truncated to a byte by the assignment, which is subtraction of 8-bit
  words.
\<close>

definition deltaEnc :: "byte \<Rightarrow> int \<Rightarrow> globals \<Rightarrow> byte \<times> globals" where
  "deltaEnc b i st =
     (let delta = previous st ! nat i - b
      in (delta, st\<lparr>previous := (previous st)[nat i := b]\<rparr>))"

definition deltaDec :: "byte \<Rightarrow> int \<Rightarrow> globals \<Rightarrow> byte \<times> globals" where
  "deltaDec delta i st =
     (let b = previous st ! nat i - delta
      in (b, st\<lparr>previous := (previous st)[nat i := b]\<rparr>))"

text \<open>\<^verbatim>\<open>updateWeight\<close>: four independent tests on the global \<^verbatim>\<open>weight\<close>, in order.\<close>

definition updateWeight :: "byte \<Rightarrow> int \<Rightarrow> int" where
  "updateWeight err w0 =
     (let w1 = (if err < 127 then w0 + 1 else w0);
          w2 = (if err > 127 then w1 - 1 else w1);
          w3 = (if w2 = 1281 then w2 - 1 else w2);
          w4 = (if w3 = - 1281 then w3 + 1 else w3)
      in w4)"

text \<open>
  \<^verbatim>\<open>adaptiveDeltaEnc\<close> and \<^verbatim>\<open>adaptiveDeltaDec\<close>. \<^verbatim>\<open>weight >> rate\<close> is the
  arithmetic shift of a signed \<^verbatim>\<open>int\<close>: division by \<open>2 ^ rate\<close> rounding down.
  \<^verbatim>\<open>w + (prediction - b)\<close> is computed in \<^verbatim>\<open>int\<close> and truncated to a byte.
\<close>

definition adaptiveDeltaEnc :: "byte \<Rightarrow> int \<Rightarrow> globals \<Rightarrow> byte \<times> globals" where
  "adaptiveDeltaEnc b i st =
     (let p1 = previousByte st ! nat i;
          p2 = secondPreviousByte st ! nat i;
          prediction = (word_of_int ((uint p1 - uint p2) + uint p1) :: byte);
          w = weight st div 2 ^ rate;
          error = (word_of_int (w + (uint prediction - uint b)) :: byte)
      in (error,
          st\<lparr>weight := updateWeight error (weight st),
             secondPreviousByte := (secondPreviousByte st)[nat i := p1],
             previousByte := (previousByte st)[nat i := word_of_int (w + uint b)]\<rparr>))"

definition adaptiveDeltaDec :: "byte \<Rightarrow> int \<Rightarrow> globals \<Rightarrow> byte \<times> globals" where
  "adaptiveDeltaDec error i st =
     (let p1 = previousByte st ! nat i;
          p2 = secondPreviousByte st ! nat i;
          prediction = (word_of_int ((uint p1 - uint p2) + uint p1) :: byte);
          w = weight st div 2 ^ rate;
          b = (word_of_int (w + (uint prediction - uint error)) :: byte)
      in (b,
          st\<lparr>weight := updateWeight error (weight st),
             secondPreviousByte := (secondPreviousByte st)[nat i := p1],
             previousByte := (previousByte st)[nat i := word_of_int (w + uint b)]\<rparr>))"

section \<open>The synthetic modulo\<close>

text \<open>
  \<^verbatim>\<open>modulo\<close> increments the global counter \<^verbatim>\<open>d\<close>, sets it to 0 when it equals
  \<^verbatim>\<open>max\<close>, and returns it. The model takes the counter and returns the pair of the
  returned value and the new counter.
\<close>

definition modulo :: "int \<Rightarrow> int \<Rightarrow> int \<times> int" where
  "modulo mx cnt =
     (let d1 = cnt + 1;
          d2 = (if d1 = mx then 0 else d1)
      in (d2, d2))"

definition resetModulo :: "globals \<Rightarrow> globals" where
  "resetModulo st = st\<lparr>d := 0\<rparr>"

text \<open>The values returned by \<open>k\<close> successive calls of \<^verbatim>\<open>modulo(mx)\<close>.\<close>

fun modulo_calls :: "int \<Rightarrow> nat \<Rightarrow> int \<Rightarrow> int list" where
  "modulo_calls mx 0 cnt = []"
| "modulo_calls mx (Suc k) cnt =
     (let (r, cnt') = modulo mx cnt in r # modulo_calls mx k cnt')"

section \<open>The entropy estimate\<close>

text \<open>\<^verbatim>\<open>count\<close> increments \<^verbatim>\<open>freq[channel][current]\<close>.\<close>

definition count :: "byte \<Rightarrow> nat \<Rightarrow> globals \<Rightarrow> globals" where
  "count current channel st =
     st\<lparr>freq := (freq st)[channel :=
            (freq st ! channel)[unat current := freq st ! channel ! unat current + 1]]\<rparr>"

text \<open>
  \<open>charProbability\<close> is the exact value of the quotient \<^verbatim>\<open>freq[channel][i] / fileLength\<close>
  that \<^verbatim>\<open>calcEntropy\<close> assigns to its local variable of that name; the program holds
  its rounding to \<^verbatim>\<open>double\<close>.
\<close>

definition charProbability :: "globals \<Rightarrow> nat \<Rightarrow> nat \<Rightarrow> real" where
  "charProbability st channel i = real (freq st ! channel ! i) / real (fileLength st)"

text \<open>
  \<^verbatim>\<open>calcEntropy\<close> and \<^verbatim>\<open>findSmallestChannel\<close> compute in \<^verbatim>\<open>double\<close>. The arithmetic
  of \<^verbatim>\<open>double\<close> (its rounding, its infinities, the value of 0 / 0 and the comparisons
  with it) is not fixed here: the operations the two functions use are parameters, over
  any type \<open>'f\<close> of values. \<open>d_of_long\<close> is the conversion of an integer to
  \<^verbatim>\<open>double\<close>, \<open>d_ne\<close> is \<^verbatim>\<open>!=\<close> and \<open>d_lt\<close> is \<^verbatim>\<open><\<close>.
\<close>

record 'f double_ops =
  d_of_long :: "nat \<Rightarrow> 'f"
  d_add :: "'f \<Rightarrow> 'f \<Rightarrow> 'f"
  d_mul :: "'f \<Rightarrow> 'f \<Rightarrow> 'f"
  d_div :: "'f \<Rightarrow> 'f \<Rightarrow> 'f"
  d_neg :: "'f \<Rightarrow> 'f"
  d_log :: "'f \<Rightarrow> 'f"
  d_ne :: "'f \<Rightarrow> 'f \<Rightarrow> bool"
  d_lt :: "'f \<Rightarrow> 'f \<Rightarrow> bool"

definition calcEntropy :: "'f double_ops \<Rightarrow> globals \<Rightarrow> nat \<Rightarrow> 'f" where
  "calcEntropy ops st channel =
     fold (\<lambda>i entropy.
             (let p = d_div ops (d_of_long ops (freq st ! channel ! i))
                                (d_of_long ops (fileLength st))
              in if d_ne ops p (d_of_long ops 0)
                 then d_add ops entropy
                        (d_mul ops p
                           (d_div ops (d_neg ops (d_log ops p)) (d_log ops (d_of_long ops 2))))
                 else entropy))
          [0..<256] (d_of_long ops 0)"

definition findSmallestChannel :: "'f double_ops \<Rightarrow> globals \<Rightarrow> nat" where
  "findSmallestChannel ops st =
     (let chanEnt = map (calcEntropy ops st) [0..<totalChannels]
      in fst (fold (\<lambda>i (index, mn).
                      if d_lt ops (chanEnt ! i) mn then (i, chanEnt ! i) else (index, mn))
                   [1..<totalChannels] (0, chanEnt ! 0)))"

section \<open>The scan pass\<close>

text \<open>
  The body of the innermost loop of the scan, for one byte of the buffer and one
  candidate \<open>index\<close>. The two sources differ in one constant: \<^verbatim>\<open>prepack.c\<close> tests
  \<^verbatim>\<open>index < breakpoint\<close> where \<^verbatim>\<open>prepack_lite.c\<close> tests \<^verbatim>\<open>index < 7\<close>. The
  constant is the parameter \<open>split\<close>.
\<close>

definition scan_byte :: "nat \<Rightarrow> nat \<Rightarrow> byte \<Rightarrow> globals \<Rightarrow> globals" where
  "scan_byte split index b st =
     (let channel = uint (indexToChannel ! index)
      in if channel = 0 then count b index st
         else if index < split then
           (let (md, cnt) = modulo channel (d st);
                (r, st') = deltaEnc b md (st\<lparr>d := cnt\<rparr>)
            in count r index st')
         else
           (let (md, cnt) = modulo channel (d st);
                (r, st') = adaptiveDeltaEnc b md (st\<lparr>d := cnt\<rparr>)
            in count r index st'))"

text \<open>One candidate over the bytes read, then \<^verbatim>\<open>resetModulo()\<close>.\<close>

definition scan_index :: "nat \<Rightarrow> byte list \<Rightarrow> nat \<Rightarrow> globals \<Rightarrow> globals" where
  "scan_index split buffer index st = resetModulo (fold (scan_byte split index) buffer st)"

text \<open>All candidates over the bytes read: the loop \<^verbatim>\<open>for (index = 0; index < totalChannels; index++)\<close>.\<close>

definition scan_block :: "nat \<Rightarrow> byte list \<Rightarrow> globals \<Rightarrow> globals" where
  "scan_block split buffer st = fold (scan_index split buffer) [0..<totalChannels] st"

text \<open>
  The loop \<^verbatim>\<open>while (feof(in) == 0)\<close> of the scan. \<open>pos\<close> is the file position.
  \<^verbatim>\<open>fread\<close> delivers up to \<open>blocksize\<close> bytes and sets the end-of-file indicator
  exactly when it delivers fewer; \<^verbatim>\<open>fseek\<close> clears the indicator. So the loop goes on
  after a stride, and otherwise after a full block.
\<close>

function scan_loop :: "nat \<Rightarrow> byte list \<Rightarrow> nat \<Rightarrow> globals \<Rightarrow> globals" where
  "scan_loop split file pos st =
     (let buffer = take blocksize (drop pos file);
          r = length buffer;
          st' = scan_block split buffer st;
          pos' = pos + r
      in if pos' + blocksize * boost < length file
         then scan_loop split file (pos' + blocksize * boost) st'
         else if r = blocksize then scan_loop split file pos' st'
         else st')"
  by pat_completeness auto
termination
  by (relation "measure (\<lambda>(split, file, pos, st). length file + 1 - pos)")
     (auto simp: blocksize_def boost_def)

text \<open>The bytes the scan reads, block by block: the same loop, collecting the buffers.\<close>

function scan_reads :: "byte list \<Rightarrow> nat \<Rightarrow> byte list list" where
  "scan_reads file pos =
     (let buffer = take blocksize (drop pos file);
          r = length buffer;
          pos' = pos + r
      in if pos' + blocksize * boost < length file
         then buffer # scan_reads file (pos' + blocksize * boost)
         else if r = blocksize then buffer # scan_reads file pos'
         else [buffer])"
  by pat_completeness auto
termination
  by (relation "measure (\<lambda>(file, pos). length file + 1 - pos)")
     (auto simp: blocksize_def boost_def)

text \<open>
  The scan pass from the start: \<^verbatim>\<open>fileLength\<close> receives the length of the file
  (\<^verbatim>\<open>fseek(in, 0, SEEK_END); fileLength = ftell(in)\<close>), then the loop runs from
  position 0.
\<close>

definition scan_pass :: "nat \<Rightarrow> byte list \<Rightarrow> globals \<Rightarrow> globals" where
  "scan_pass split file st = scan_loop split file 0 (st\<lparr>fileLength := length file\<rparr>)"

text \<open>
  The loop \<^verbatim>\<open>for (j = 0; j < 8; j++)\<close> after the scan and at the start of decoding:
  it zeroes the three 8-entry arrays and \<^verbatim>\<open>weight\<close>, and nothing else.
\<close>

definition reset_variables :: "globals \<Rightarrow> globals" where
  "reset_variables st =
     st\<lparr>previous := replicate 8 0,
        previousByte := replicate 8 0,
        secondPreviousByte := replicate 8 0,
        weight := 0\<rparr>"

section \<open>The commit pass and decoding\<close>

text \<open>
  Both passes read the input in blocks of \<open>blocksize\<close> bytes, replace every byte of the
  buffer in place and write the buffer. \<open>run_buffer\<close> is the loop over the buffer,
  \<open>run_blocks\<close> the loop \<^verbatim>\<open>while (feof(in) == 0)\<close> over the rest of the input: it
  goes on after a full block and stops after a shorter one.
\<close>

fun run_buffer :: "(byte \<Rightarrow> globals \<Rightarrow> byte \<times> globals) \<Rightarrow> byte list \<Rightarrow> globals
                   \<Rightarrow> byte list \<times> globals" where
  "run_buffer step [] st = ([], st)"
| "run_buffer step (b # bs) st =
     (let (b', st') = step b st;
          (bs', st'') = run_buffer step bs st'
      in (b' # bs', st''))"

function run_blocks :: "(byte \<Rightarrow> globals \<Rightarrow> byte \<times> globals) \<Rightarrow> byte list \<Rightarrow> globals
                   \<Rightarrow> byte list \<times> globals" where
  "run_blocks step input st =
     (let buffer = take blocksize input;
          (out, st') = run_buffer step buffer st
      in if length buffer = blocksize
         then (let (out', st'') = run_blocks step (drop blocksize input) st'
               in (out @ out', st''))
         else (out, st'))"
  by pat_completeness auto
termination
  by (relation "measure (\<lambda>(step, input, st). length input)")
     (auto simp: blocksize_def)

text \<open>
  The body of the encoding loops for one byte: \<open>channel\<close> is the candidate index,
  \<open>ch\<close> its channel count.
\<close>

definition encode_byte :: "nat \<Rightarrow> int \<Rightarrow> byte \<Rightarrow> globals \<Rightarrow> byte \<times> globals" where
  "encode_byte channel ch b st =
     (if channel < breakpoint then
        (if ch \<noteq> 0
         then (let (md, cnt) = modulo ch (d st) in deltaEnc b md (st\<lparr>d := cnt\<rparr>))
         else (b, st))
      else
        (if ch \<noteq> 0
         then (let (md, cnt) = modulo ch (d st) in adaptiveDeltaEnc b md (st\<lparr>d := cnt\<rparr>))
         else (b, st)))"

definition decode_byte :: "nat \<Rightarrow> int \<Rightarrow> byte \<Rightarrow> globals \<Rightarrow> byte \<times> globals" where
  "decode_byte channel ch b st =
     (if channel < breakpoint then
        (if ch \<noteq> 0
         then (let (md, cnt) = modulo ch (d st) in deltaDec b md (st\<lparr>d := cnt\<rparr>))
         else (b, st))
      else
        (if ch \<noteq> 0
         then (let (md, cnt) = modulo ch (d st) in adaptiveDeltaDec b md (st\<lparr>d := cnt\<rparr>))
         else (b, st)))"

text \<open>
  The commit pass for the candidate \<open>channel\<close>: the header byte (\<^verbatim>\<open>putc(channel, out)\<close>),
  then the whole file from its start. The result is the output stream and the globals
  at the end.
\<close>

definition encode_pass :: "nat \<Rightarrow> byte list \<Rightarrow> globals \<Rightarrow> byte list \<times> globals" where
  "encode_pass channel file st =
     (let ch = uint (indexToChannel ! channel);
          (out, st') = run_blocks (encode_byte channel ch) file st
      in (word_of_nat channel # out, st'))"

text \<open>
  Encoding: the scan, the choice of the candidate, the reset of the filter variables,
  the commit pass. \<open>split\<close> is \<open>breakpoint\<close> for \<^verbatim>\<open>prepack.c\<close> and 7 for
  \<^verbatim>\<open>prepack_lite.c\<close>; \<open>ops\<close> is the arithmetic of \<^verbatim>\<open>double\<close>.
\<close>

definition encode :: "'f double_ops \<Rightarrow> nat \<Rightarrow> byte list \<Rightarrow> byte list" where
  "encode ops split file =
     (let st1 = scan_pass split file init_globals;
          channel = findSmallestChannel ops st1;
          st2 = reset_variables st1
      in fst (encode_pass channel file st2))"

text \<open>
  Decoding reads the header with \<^verbatim>\<open>getc\<close>, which returns the byte as an \<^verbatim>\<open>int\<close>, or
  \<^verbatim>\<open>EOF\<close> (-1) when the input is empty, and uses the value as an index into
  \<^verbatim>\<open>indexToChannel\<close> without a test. A read outside the 15 entries of the table has
  no defined result in C; the program has no exit status for it. The model marks it
  with \<open>Index_outside_table\<close>.
\<close>

datatype undefined_access = Index_outside_table int

definition getc :: "byte list \<Rightarrow> int \<times> byte list" where
  "getc input = (case input of [] \<Rightarrow> (- 1, []) | b # rest \<Rightarrow> (uint b, rest))"

definition table_read :: "int \<Rightarrow> undefined_access + byte" where
  "table_read i =
     (if 0 \<le> i \<and> i < int (length indexToChannel)
      then Inr (indexToChannel ! nat i)
      else Inl (Index_outside_table i))"

definition decode_from :: "globals \<Rightarrow> byte list \<Rightarrow> undefined_access + byte list \<times> globals" where
  "decode_from st input =
     (let (channel, rest) = getc input
      in case table_read channel of
           Inl u \<Rightarrow> Inl u
         | Inr c \<Rightarrow>
             (let st1 = reset_variables st;
                  ch = uint c
              in Inr (run_blocks (decode_byte (nat channel) ch) rest st1)))"

text \<open>
  Decoding is a run of the program of its own: the globals have their initial values.
  \<open>decode\<close> is the stream written to the output.
\<close>

definition decode :: "byte list \<Rightarrow> undefined_access + byte list" where
  "decode input = map_sum id fst (decode_from init_globals input)"

text \<open>
  The variables that the filters and the lane router read and write. The commit pass
  and decoding touch no other global.
\<close>

definition filter_vars :: "globals \<Rightarrow> int \<times> byte list \<times> byte list \<times> byte list \<times> int" where
  "filter_vars st = (weight st, previous st, previousByte st, secondPreviousByte st, d st)"

text \<open>
  The globals when the loop over the candidates, working on one buffer, reaches the
  candidate \<open>index\<close>: the candidates before it have run.
\<close>

definition scan_entry :: "nat \<Rightarrow> byte list \<Rightarrow> nat \<Rightarrow> globals \<Rightarrow> globals" where
  "scan_entry split buffer index st = fold (scan_index split buffer) [0..<index] st"

text \<open>The number of bytes the scan pass reads.\<close>

definition sampledByteTotal :: "byte list \<Rightarrow> nat" where
  "sampledByteTotal file = sum_list (map length (scan_reads file 0))"

text \<open>The shape of \<^verbatim>\<open>freq\<close>: 15 rows of 256 counters.\<close>

definition freq_shape :: "globals \<Rightarrow> bool" where
  "freq_shape st \<longleftrightarrow> length (freq st) = 15 \<and> list_all (\<lambda>row. length row = 256) (freq st)"

text \<open>The loops are unfolded by hand, never by the simplifier.\<close>

declare run_blocks.simps [simp del] scan_loop.simps [simp del] scan_reads.simps [simp del]

section \<open>The lane router\<close>

lemma modulo_calls_from:
  "0 \<le> c \<Longrightarrow> c < n \<Longrightarrow>
   modulo_calls n k c = map (\<lambda>j. (c + int j + 1) mod n) [0..<k]"
proof (induction k arbitrary: c)
  case 0
  then show ?case by simp
next
  case (Suc k)
  let ?c' = "if c + 1 = n then 0 else c + 1"
  have c': "0 \<le> ?c'" "?c' < n"
    using Suc.prems by auto
  have first: "(c + 1) mod n = ?c'"
    using Suc.prems by (auto simp: mod_pos_pos_trivial)
  have shift: "(?c' + int j + 1) mod n = (c + int (Suc j) + 1) mod n" for j
  proof (cases "c + 1 = n")
    case True
    then have "c + int (Suc j) + 1 = (int j + 1) + n" by simp
    then have "(c + int (Suc j) + 1) mod n = (int j + 1) mod n"
      by (simp only: mod_add_self2)
    then show ?thesis using True by simp
  next
    case False
    then show ?thesis by (simp add: algebra_simps)
  qed
  have "modulo_calls n (Suc k) c = ?c' # modulo_calls n k ?c'"
    by (simp add: modulo_def Let_def)
  also have "\<dots> = ?c' # map (\<lambda>j. (?c' + int j + 1) mod n) [0..<k]"
    using Suc.IH [OF c'] by simp
  also have "\<dots> = (c + 1) mod n # map (\<lambda>j. (c + int (Suc j) + 1) mod n) [0..<k]"
    unfolding first by (intro arg_cong2 [where f = Cons] refl map_cong shift)
  also have "\<dots> = map (\<lambda>j. (c + int j + 1) mod n) (0 # map Suc [0..<k])"
    by (simp add: comp_def)
  also have "0 # map Suc [0..<k] = [0..<Suc k]"
    by (simp add: upt_conv_Cons map_Suc_upt del: upt_Suc)
  finally show ?case .
qed

text \<open>
  C6. For a channel count \<open>n\<close> from 1 to 8 and the counter starting at 0, a call of
  \<^verbatim>\<open>modulo\<close> increments the counter, wraps it to 0 when it reaches \<open>n\<close> and returns
  the new counter; the \<open>j\<close>-th call (counting from 0) returns \<open>(j + 1) mod n\<close>, that is
  1, 2, ..., n-1, 0, 1, ...; for \<open>n = 1\<close> every call returns 0; every returned value
  lies in \<open>[0, n - 1]\<close>.
\<close>

theorem modulo_lane_sequence:
  assumes "1 \<le> n" and "n \<le> 8"
  shows "modulo n c = (if c + 1 = n then (0, 0) else (c + 1, c + 1))
       \<and> modulo_calls n k 0 = map (\<lambda>j. (int j + 1) mod n) [0..<k]
       \<and> (n = 1 \<longrightarrow> modulo_calls n k 0 = replicate k 0)
       \<and> (\<forall>r \<in> set (modulo_calls n k 0). 0 \<le> r \<and> r \<le> n - 1)"
proof -
  have calls: "modulo_calls n k 0 = map (\<lambda>j. (int j + 1) mod n) [0..<k]"
    using modulo_calls_from [of 0 n k] assms by simp
  have one: "modulo_calls n k 0 = replicate k 0" if "n = 1"
    unfolding calls using that by (simp add: map_replicate_const)
  have range: "0 \<le> r \<and> r \<le> n - 1" if "r \<in> set (modulo_calls n k 0)" for r
  proof -
    from that obtain j where "r = (int j + 1) mod n"
      unfolding calls by auto
    moreover have "0 < n" using assms by simp
    ultimately show ?thesis
      using pos_mod_bound [of n "int j + 1"] pos_mod_sign [of n "int j + 1"] by simp
  qed
  have step: "modulo n c = (if c + 1 = n then (0, 0) else (c + 1, c + 1))"
    by (simp add: modulo_def Let_def)
  from step calls one range show ?thesis
    by blast
qed

theorem modulo_lane_sequence_witness:
  "(1::int) \<le> 3 \<and> (3::int) \<le> 8
   \<and> modulo 3 2 = (0, 0)
   \<and> modulo_calls 3 7 0 = [1, 2, 0, 1, 2, 0, 1]
   \<and> list_all (\<lambda>r. 0 \<le> r \<and> r \<le> 2) (modulo_calls 3 7 0)"
proof -
  have h1: "(1::int) \<le> 3" and h2: "(3::int) \<le> 8" by simp_all
  have seven: "[0..<7] = [0, 1, 2, 3, 4, 5, 6]" by code_simp
  show ?thesis
    using modulo_lane_sequence [OF h1 h2, of 2 7] by (simp add: seven)
qed

section \<open>The weight of the adaptive filter\<close>

lemma updateWeight_range:
  "- 1280 \<le> w \<Longrightarrow> w \<le> 1280 \<Longrightarrow> - 1280 \<le> updateWeight e w \<and> updateWeight e w \<le> 1280"
  by (auto simp: updateWeight_def Let_def)

lemma fold_updateWeight_range:
  "- 1280 \<le> w \<Longrightarrow> w \<le> 1280 \<Longrightarrow>
   - 1280 \<le> fold updateWeight errs w \<and> fold updateWeight errs w \<le> 1280"
proof (induction errs arbitrary: w)
  case Nil
  then show ?case by simp
next
  case (Cons e errs)
  then show ?case using updateWeight_range [of w e] by simp
qed

lemma updateWeight_low:
  "e < 127 \<Longrightarrow> - 1280 \<le> w \<Longrightarrow> w \<le> 1280 \<Longrightarrow> updateWeight e w = min 1280 (w + 1)"
  by (auto simp: updateWeight_def Let_def)

lemma updateWeight_high:
  "127 < e \<Longrightarrow> - 1280 \<le> w \<Longrightarrow> w \<le> 1280 \<Longrightarrow> updateWeight e w = max (- 1280) (w - 1)"
  by (auto simp: updateWeight_def Let_def)

lemma updateWeight_neutral:
  "- 1280 \<le> w \<Longrightarrow> w \<le> 1280 \<Longrightarrow> updateWeight 127 w = w"
  by (simp add: updateWeight_def Let_def)

lemma fold_updateWeight_low:
  "\<forall>e \<in> set errs. e < 127 \<Longrightarrow> - 1280 \<le> w \<Longrightarrow> w \<le> 1280 \<Longrightarrow>
   fold updateWeight errs w = min 1280 (w + int (length errs))"
proof (induction errs arbitrary: w)
  case Nil
  then show ?case by simp
next
  case (Cons e errs)
  have e: "e < 127" using Cons.prems by simp
  have step: "updateWeight e w = min 1280 (w + 1)"
    using updateWeight_low [OF e] Cons.prems by simp
  have "fold updateWeight errs (min 1280 (w + 1)) = min 1280 (min 1280 (w + 1) + int (length errs))"
    using Cons.prems by (intro Cons.IH) auto
  then show ?case using step by (simp add: min_def)
qed

lemma fold_updateWeight_high:
  "\<forall>e \<in> set errs. 127 < e \<Longrightarrow> - 1280 \<le> w \<Longrightarrow> w \<le> 1280 \<Longrightarrow>
   fold updateWeight errs w = max (- 1280) (w - int (length errs))"
proof (induction errs arbitrary: w)
  case Nil
  then show ?case by simp
next
  case (Cons e errs)
  have e: "127 < e" using Cons.prems by simp
  have step: "updateWeight e w = max (- 1280) (w - 1)"
    using updateWeight_high [OF e] Cons.prems by simp
  have "fold updateWeight errs (max (- 1280) (w - 1)) = max (- 1280) (max (- 1280) (w - 1) - int (length errs))"
    using Cons.prems by (intro Cons.IH) auto
  then show ?case using step by (simp add: max_def)
qed

text \<open>
  C5. Starting from weight 0, after any sequence of residual bytes the weight lies in
  \<open>[-1280, 1280]\<close>. After a run of residuals all below 127 it is the length of the run,
  capped at 1280: from 1280 residuals on it is exactly 1280 and stays there, never 1281.
  After a run of residuals all above 127 it is minus the length of the run, capped at
  -1280. A residual equal to 127 leaves the weight as it is.
\<close>

theorem weight_saturation:
  "- 1280 \<le> fold updateWeight errs 0 \<and> fold updateWeight errs 0 \<le> 1280
   \<and> ((\<forall>e \<in> set errs. e < 127) \<longrightarrow>
        fold updateWeight errs 0 = min 1280 (int (length errs)))
   \<and> ((\<forall>e \<in> set errs. 127 < e) \<longrightarrow>
        fold updateWeight errs 0 = max (- 1280) (- int (length errs)))
   \<and> updateWeight 127 (fold updateWeight errs 0) = fold updateWeight errs 0"
proof -
  have range: "- 1280 \<le> fold updateWeight errs 0 \<and> fold updateWeight errs 0 \<le> 1280"
    using fold_updateWeight_range [of 0 errs] by simp
  have low: "fold updateWeight errs 0 = min 1280 (int (length errs))"
    if "\<forall>e \<in> set errs. e < 127"
    using fold_updateWeight_low [OF that, of 0] by simp
  have high: "fold updateWeight errs 0 = max (- 1280) (- int (length errs))"
    if "\<forall>e \<in> set errs. 127 < e"
    using fold_updateWeight_high [OF that, of 0] by simp
  have neutral: "updateWeight 127 (fold updateWeight errs 0) = fold updateWeight errs 0"
    using updateWeight_neutral range by simp
  from range low high neutral show ?thesis
    by blast
qed

theorem weight_saturation_witness:
  "list_all (\<lambda>e. e < 127) (replicate 1300 (5::byte))
   \<and> fold updateWeight (replicate 1300 (5::byte)) 0 = 1280
   \<and> list_all (\<lambda>e. 127 < e) (replicate 1300 (200::byte))
   \<and> fold updateWeight (replicate 1300 (200::byte)) 0 = - 1280
   \<and> fold updateWeight (replicate 1281 (5::byte)) 0 = 1280
   \<and> fold updateWeight [5, 127, 5, 200, 127 :: byte] 0 = 1"
proof -
  have low: "\<forall>e \<in> set (replicate 1300 (5::byte)). e < 127" by simp
  have low': "\<forall>e \<in> set (replicate 1281 (5::byte)). e < 127" by simp
  have high: "\<forall>e \<in> set (replicate 1300 (200::byte)). 127 < e" by simp
  have short: "fold updateWeight [5, 127, 5, 200, 127 :: byte] 0 = 1"
    by (simp add: updateWeight_def)
  show ?thesis
    using low high low' short
      weight_saturation [of "replicate 1300 (5::byte)"]
      weight_saturation [of "replicate 1300 (200::byte)"]
      weight_saturation [of "replicate 1281 (5::byte)"]
    by (simp add: list_all_iff)
qed

section \<open>The round trip\<close>

lemma byte_promotion:
  "(word_of_int (w + (uint p - uint b)) :: byte) = word_of_int w + (p - b)"
  "(word_of_int ((uint p1 - uint p2) + uint p1) :: byte) = (p1 - p2) + p1"
  "(word_of_int (w + uint b) :: byte) = word_of_int w + b"
  by (simp_all add: wi_hom_syms)

lemma delta_roundtrip:
  "deltaDec (fst (deltaEnc b i st)) i st = (b, snd (deltaEnc b i st))"
  by (simp add: deltaEnc_def deltaDec_def Let_def)

lemma adaptive_roundtrip:
  "adaptiveDeltaDec (fst (adaptiveDeltaEnc b i st)) i st = (b, snd (adaptiveDeltaEnc b i st))"
  by (simp add: adaptiveDeltaEnc_def adaptiveDeltaDec_def Let_def byte_promotion)

lemma byte_roundtrip:
  "decode_byte c ch (fst (encode_byte c ch b st)) st = (b, snd (encode_byte c ch b st))"
  by (simp add: decode_byte_def encode_byte_def delta_roundtrip adaptive_roundtrip
        split: prod.splits)

lemma decode_byte_filter_vars:
  assumes "filter_vars st = filter_vars st'"
  shows "fst (decode_byte c ch x st) = fst (decode_byte c ch x st')"
    and "filter_vars (snd (decode_byte c ch x st)) = filter_vars (snd (decode_byte c ch x st'))"
  using assms
  by (simp_all add: filter_vars_def decode_byte_def deltaDec_def adaptiveDeltaDec_def Let_def
        split: prod.splits)

lemma byte_roundtrip_filter_vars:
  assumes "filter_vars st = filter_vars st'"
  shows "fst (decode_byte c ch (fst (encode_byte c ch b st)) st') = b"
    and "filter_vars (snd (decode_byte c ch (fst (encode_byte c ch b st)) st'))
         = filter_vars (snd (encode_byte c ch b st))"
  using decode_byte_filter_vars [OF assms, of c ch "fst (encode_byte c ch b st)"]
  by (simp_all add: byte_roundtrip)

lemma buffer_roundtrip:
  "filter_vars st = filter_vars st' \<Longrightarrow>
   fst (run_buffer (decode_byte c ch) (fst (run_buffer (encode_byte c ch) bs st)) st') = bs
   \<and> filter_vars (snd (run_buffer (decode_byte c ch)
                          (fst (run_buffer (encode_byte c ch) bs st)) st'))
     = filter_vars (snd (run_buffer (encode_byte c ch) bs st))"
proof (induction bs arbitrary: st st')
  case Nil
  then show ?case by simp
next
  case (Cons b bs)
  obtain e st1 where enc: "encode_byte c ch b st = (e, st1)"
    by (cases "encode_byte c ch b st")
  obtain b' st1' where dec: "decode_byte c ch e st' = (b', st1')"
    by (cases "decode_byte c ch e st'")
  have b': "b' = b" and vars: "filter_vars st1 = filter_vars st1'"
    using byte_roundtrip_filter_vars [OF Cons.prems, of c ch b] enc dec by simp_all
  show ?case
    using Cons.IH [OF vars] enc dec b' by (simp add: split_beta)
qed

lemma run_buffer_append:
  "run_buffer step (xs @ ys) st =
     (let (o1, s1) = run_buffer step xs st; (o2, s2) = run_buffer step ys s1
      in (o1 @ o2, s2))"
  by (induction xs arbitrary: st) (simp_all add: split_beta)

lemma run_blocks_whole:
  "run_blocks step input st = run_buffer step input st"
proof (induction step input st rule: run_blocks.induct)
  case (1 step input st)
  show ?case
  proof (cases "length (take blocksize input) = blocksize")
    case True
    have "run_buffer step input st
          = run_buffer step (take blocksize input @ drop blocksize input) st"
      by simp
    also have "\<dots> = (let (o1, s1) = run_buffer step (take blocksize input) st;
                         (o2, s2) = run_buffer step (drop blocksize input) s1
                     in (o1 @ o2, s2))"
      by (rule run_buffer_append)
    finally have whole: "run_buffer step input st
          = (let (o1, s1) = run_buffer step (take blocksize input) st;
                 (o2, s2) = run_buffer step (drop blocksize input) s1
             in (o1 @ o2, s2))" .
    obtain o1 s1 where first: "run_buffer step (take blocksize input) st = (o1, s1)"
      by (cases "run_buffer step (take blocksize input) st")
    have rest: "run_blocks step (drop blocksize input) s1
                = run_buffer step (drop blocksize input) s1"
      using "1.IH" [OF refl refl first [symmetric] True] .
    show ?thesis
      unfolding whole
      by (subst run_blocks.simps) (simp add: first rest True)
  next
    case False
    then have "take blocksize input = input" by simp
    then show ?thesis
      using False by (subst run_blocks.simps) (simp add: split_beta)
  qed
qed

lemma header_value: "idx \<le> 14 \<Longrightarrow> uint (word_of_nat idx :: byte) = int idx"
  by (simp add: uint_nat unat_of_nat)

lemma encode_pass_output:
  "fst (encode_pass idx data st)
   = word_of_nat idx # fst (run_buffer (encode_byte idx (uint (indexToChannel ! idx))) data st)"
  by (simp add: encode_pass_def run_blocks_whole split_beta Let_def)

text \<open>
  C1. For every candidate index from 0 to 14 and every byte sequence, decoding the header
  byte of that index followed by the forward transform of the sequence gives back the
  sequence. The encoder starts from zeroed lane history, weight and lane counter (the
  other globals are arbitrary), the decoder from the initial globals.
\<close>

theorem roundtrip:
  assumes "idx \<le> 14"
  shows "decode (fst (encode_pass idx data ((reset_variables st)\<lparr>d := 0\<rparr>))) = Inr data"
proof -
  let ?ch = "uint (indexToChannel ! idx)"
  let ?fresh = "(reset_variables st)\<lparr>d := 0\<rparr>"
  let ?out = "fst (run_buffer (encode_byte idx ?ch) data ?fresh)"
  have enc: "fst (encode_pass idx data ?fresh) = word_of_nat idx # ?out"
    by (rule encode_pass_output)
  have tab: "table_read (int idx) = Inr (indexToChannel ! idx)"
    using assms by (simp add: table_read_def indexToChannel_def)
  have vars: "filter_vars ?fresh = filter_vars (reset_variables init_globals)"
    by (simp add: filter_vars_def reset_variables_def init_globals_def)
  have "decode (word_of_nat idx # ?out)
        = Inr (fst (run_buffer (decode_byte idx ?ch) ?out (reset_variables init_globals)))"
    using assms
    by (simp add: decode_def decode_from_def getc_def header_value tab run_blocks_whole
          Let_def)
  also have "\<dots> = Inr data"
    using buffer_roundtrip [OF vars, of idx ?ch data] by simp
  finally show ?thesis
    using enc by simp
qed

theorem roundtrip_witness:
  "(12::nat) \<le> 14
   \<and> fst (encode_pass 12 [10, 20] ((reset_variables init_globals)\<lparr>d := 0\<rparr>)) = [12, 246, 235]
   \<and> decode [12, 246, 235] = Inr [10, 20]"
proof -
  have h: "(12::nat) \<le> 14" by simp
  have ch: "uint (indexToChannel ! 12) = 4"
    by (simp add: indexToChannel_def)
  have buf: "fst (run_buffer (encode_byte 12 4) [10, 20] ((reset_variables init_globals)\<lparr>d := 0\<rparr>))
             = [246, 235]"
    by code_simp
  have enc: "fst (encode_pass 12 [10, 20] ((reset_variables init_globals)\<lparr>d := 0\<rparr>))
             = [12, 246, 235]"
    by (simp only: encode_pass_output ch buf) simp
  show ?thesis
    using roundtrip [OF h, of "[10, 20]" init_globals] enc by simp
qed

section \<open>The identity candidate\<close>

lemma run_buffer_identity: "run_buffer (\<lambda>b st. (b, st)) bs st = (bs, st)"
  by (induction bs arbitrary: st) simp_all

lemma encode_byte_identity: "encode_byte 0 0 = (\<lambda>b st. (b, st))"
  by (simp add: encode_byte_def fun_eq_iff)

lemma decode_byte_identity: "decode_byte 0 0 = (\<lambda>b st. (b, st))"
  by (simp add: decode_byte_def fun_eq_iff)

lemma channel_of_identity: "uint (indexToChannel ! 0) = 0"
  by (simp add: indexToChannel_def)

lemma reset_variables_init: "reset_variables init_globals = init_globals"
  by (simp add: reset_variables_def init_globals_def)

text \<open>
  C8. Candidate 0, whose channel count is 0, passes every byte through in both
  directions. The commit pass writes the header byte 0 and then the input unchanged, and
  leaves every global as it was; decoding a stream with header 0 writes the remaining
  bytes unchanged, and its loop leaves every global as the reset at its start set it:
  no filter and no call of \<^verbatim>\<open>modulo\<close> runs.
\<close>

theorem identity_candidate:
  "encode_pass 0 file st = (0 # file, st)
   \<and> run_blocks (encode_byte 0 (uint (indexToChannel ! 0))) file st = (file, st)
   \<and> run_blocks (decode_byte 0 (uint (indexToChannel ! 0))) rest st = (rest, st)
   \<and> decode_from st (0 # rest) = Inr (rest, reset_variables st)
   \<and> decode_from init_globals (0 # rest) = Inr (rest, init_globals)
   \<and> decode (0 # rest) = Inr rest"
proof -
  have enc: "run_blocks (encode_byte 0 (uint (indexToChannel ! 0))) bs s = (bs, s)" for bs s
    by (simp only: channel_of_identity encode_byte_identity run_blocks_whole run_buffer_identity)
  have dec: "run_blocks (decode_byte 0 (uint (indexToChannel ! 0))) bs s = (bs, s)" for bs s
    by (simp only: channel_of_identity decode_byte_identity run_blocks_whole run_buffer_identity)
  have pass: "encode_pass 0 file st = (0 # file, st)"
    by (simp add: encode_pass_def enc)
  have tab: "table_read 0 = Inr (indexToChannel ! 0)"
    by (simp add: table_read_def indexToChannel_def)
  have dfrom: "decode_from s (0 # rest) = Inr (rest, reset_variables s)" for s
    by (simp add: decode_from_def getc_def tab dec)
  show ?thesis
    using pass enc dec dfrom [of st] dfrom [of init_globals]
    by (simp add: decode_def reset_variables_init)
qed

theorem identity_candidate_witness:
  "encode_pass 0 [7, 0, 255] init_globals = ([0, 7, 0, 255], init_globals)
   \<and> decode [0, 7, 0, 255] = Inr [7, 0, 255]"
  using identity_candidate [of "[7, 0, 255]" init_globals "[7, 0, 255]"] by simp

section \<open>The header on decoding\<close>

lemma length_run_buffer: "length (fst (run_buffer step bs st)) = length bs"
  by (induction bs arbitrary: st) (simp_all add: split_beta)

lemma table_read_in:
  assumes "h \<le> 14"
  shows "table_read (uint (h::byte)) = Inr (indexToChannel ! unat h)"
proof -
  have "uint h \<le> 14"
    using assms by (simp add: word_le_def)
  then show ?thesis
    by (simp add: table_read_def indexToChannel_def)
qed

lemma table_read_out:
  assumes "14 < h"
  shows "table_read (uint (h::byte)) = Inl (Index_outside_table (uint h))"
proof -
  have "14 < uint h"
    using assms by (simp add: word_less_def)
  then show ?thesis
    by (simp add: table_read_def indexToChannel_def)
qed

lemma decode_empty: "decode [] = Inl (Index_outside_table (- 1))"
  by (simp add: decode_def decode_from_def getc_def table_read_def)

lemma decode_header_out:
  "14 < h \<Longrightarrow> decode (h # rest) = Inl (Index_outside_table (uint h))"
  using table_read_out [of h] by (simp add: decode_def decode_from_def getc_def)

lemma decode_header_in:
  "h \<le> 14 \<Longrightarrow>
   decode (h # rest)
   = Inr (fst (run_buffer (decode_byte (unat h) (uint (indexToChannel ! unat h))) rest
                 (reset_variables init_globals)))"
  using table_read_in [of h]
  by (simp add: decode_def decode_from_def getc_def run_blocks_whole Let_def)

text \<open>
  C7, as amended. Decoding does not check the header. A first byte \<open>h\<close> from 0 to 14
  selects the entry \<open>h\<close> of the table: decoding runs the inverse filter of candidate
  \<open>h\<close>, with the channel count of that entry, over the remaining bytes from zeroed
  filter variables, and writes one byte for every remaining byte of the input. A first
  byte above 14, and the \<^verbatim>\<open>EOF\<close> value -1 that \<^verbatim>\<open>getc\<close> returns on an empty input, is
  used as an index outside the 15 entries of the table: the program reports no error
  for it.
\<close>

theorem decode_header_unchecked:
  "decode [] = Inl (Index_outside_table (- 1))
   \<and> (14 < h \<longrightarrow> decode (h # rest) = Inl (Index_outside_table (uint h)))
   \<and> (h \<le> 14 \<longrightarrow> (\<exists>out. decode (h # rest) = Inr out \<and> length out = length rest))
   \<and> (h \<le> 14 \<longrightarrow>
        decode (h # rest)
        = Inr (fst (run_blocks (decode_byte (unat h) (uint (indexToChannel ! unat h))) rest
                      (reset_variables init_globals))))"
  using decode_empty decode_header_out [of h rest] decode_header_in [of h rest]
  by (simp add: length_run_buffer run_blocks_whole)

theorem decode_header_unchecked_witness:
  "decode [] = Inl (Index_outside_table (- 1))
   \<and> decode [200, 1, 2] = Inl (Index_outside_table 200)
   \<and> (\<exists>out. decode [14, 1, 2] = Inr out \<and> length out = 2)
   \<and> decode [3, 10, 20] = Inr [246, 236]
   \<and> decode [0, 10, 20] = Inr [10, 20]"
proof -
  have two: "length [1 :: byte, 2] = 2" by simp
  have big: "(14 :: byte) < 200" and small: "(14 :: byte) \<le> 14" "(3 :: byte) \<le> 14"
    "(0 :: byte) \<le> 14"
    by simp_all
  from decode_header_unchecked [of 200 "[1, 2]"] big
  have a: "decode [200, 1, 2] = Inl (Index_outside_table 200)" by simp
  from decode_header_unchecked [of 14 "[1, 2]"] small(1)
  have b: "\<exists>out. decode [14, 1, 2] = Inr out \<and> length out = length [1 :: byte, 2]" by blast
  from decode_header_unchecked [of 14 "[1, 2]"]
  have c: "decode [] = Inl (Index_outside_table (- 1))" by blast
  have ch3: "unat (3 :: byte) = 3" "uint (indexToChannel ! 3) = 3"
    and ch0: "unat (0 :: byte) = 0" "uint (indexToChannel ! 0) = 0"
    by (simp_all add: indexToChannel_def)
  have run3: "fst (run_buffer (decode_byte 3 3) [10, 20] (reset_variables init_globals))
              = [246, 236]"
    by code_simp
  have run0: "fst (run_buffer (decode_byte 0 0) [10, 20] (reset_variables init_globals))
              = [10, 20]"
    by code_simp
  from decode_header_unchecked [of 3 "[10, 20]"] small(2)
  have "decode [3, 10, 20]
        = Inr (fst (run_blocks (decode_byte (unat (3 :: byte))
                                  (uint (indexToChannel ! unat (3 :: byte)))) [10, 20]
                      (reset_variables init_globals)))"
    by blast
  then have e: "decode [3, 10, 20] = Inr [246, 236]"
    unfolding ch3 run_blocks_whole run3 .
  from decode_header_unchecked [of 0 "[10, 20]"] small(3)
  have "decode [0, 10, 20]
        = Inr (fst (run_blocks (decode_byte (unat (0 :: byte))
                                  (uint (indexToChannel ! unat (0 :: byte)))) [10, 20]
                      (reset_variables init_globals)))"
    by blast
  then have f: "decode [0, 10, 20] = Inr [10, 20]"
    unfolding ch0 run_blocks_whole run0 .
  from a b c e f show ?thesis unfolding two by blast
qed

text \<open>
  C7 as stated fails: the headers 15 and 255 and the empty input are not rejected, they
  index the table outside its bounds.
\<close>

theorem decode_header_counterexample:
  "decode [15, 1, 2] = Inl (Index_outside_table 15)
   \<and> decode [255] = Inl (Index_outside_table 255)
   \<and> decode [] = Inl (Index_outside_table (- 1))"
proof -
  have a: "(14 :: byte) < 15" and b: "(14 :: byte) < 255" by simp_all
  show ?thesis
    using decode_header_out [OF a, of "[1, 2]"] decode_header_out [OF b, of "[]"] decode_empty
    by simp
qed

section \<open>The lane counter in the scan\<close>

lemma d_count [simp]: "d (count r index st) = d st"
  by (simp add: count_def)

lemma d_scan_byte:
  "d (scan_byte split index b st)
   = (if uint (indexToChannel ! index) = 0 then d st
      else fst (modulo (uint (indexToChannel ! index)) (d st)))"
  by (simp add: scan_byte_def modulo_def deltaEnc_def adaptiveDeltaEnc_def Let_def split_beta)

lemma d_scan_index [simp]: "d (scan_index split buffer index st) = 0"
  by (simp add: scan_index_def resetModulo_def)

lemma d_fold_scan_index:
  "d st = 0 \<Longrightarrow> d (fold (scan_index split buffer) js st) = 0"
  by (induction js arbitrary: st) simp_all

lemma d_scan_entry: "d st = 0 \<Longrightarrow> d (scan_entry split buffer index st) = 0"
  by (simp add: scan_entry_def d_fold_scan_index)

lemma candidates_last: "[0..<totalChannels] = [0..<14] @ [14]"
proof -
  have "[0..<Suc 14] = [0..<14] @ [14]"
    by (rule upt_Suc_append) simp
  then show ?thesis
    by (simp add: totalChannels_def)
qed

lemma d_scan_block [simp]: "d (scan_block split buffer st) = 0"
  by (simp add: scan_block_def candidates_last)

lemma d_scan_loop: "d (scan_loop sp fl pos st) = 0"
proof (induction sp fl pos st rule: scan_loop.induct)
  case (1 sp fl pos st)
  show ?case
    using "1.IH" by (subst scan_loop.simps) (simp add: Let_def)
qed

lemma d_scan_pass: "d (scan_pass split file st) = 0"
  by (simp add: scan_pass_def d_scan_loop)

lemma d_fold_scan_byte:
  assumes "1 \<le> uint (indexToChannel ! index)"
  shows "0 \<le> d st \<Longrightarrow> d st < uint (indexToChannel ! index) \<Longrightarrow>
         d (fold (scan_byte split index) buffer st)
         = (d st + int (length buffer)) mod uint (indexToChannel ! index)"
proof (induction buffer arbitrary: st)
  case Nil
  then show ?case by (simp add: mod_pos_pos_trivial)
next
  case (Cons b bs)
  let ?ch = "uint (indexToChannel ! index)"
  let ?st = "scan_byte split index b st"
  have step: "d ?st = (if d st + 1 = ?ch then 0 else d st + 1)"
    using assms by (simp add: d_scan_byte modulo_def Let_def)
  have range: "0 \<le> d ?st" "d ?st < ?ch"
    using Cons.prems assms unfolding step by auto
  have md: "d ?st = (d st + 1) mod ?ch"
    using Cons.prems unfolding step by (auto simp: mod_pos_pos_trivial)
  have "d (fold (scan_byte split index) (b # bs) st) = (d ?st + int (length bs)) mod ?ch"
    using Cons.IH [OF range] by simp
  also have "\<dots> = ((d st + 1) + int (length bs)) mod ?ch"
    unfolding md by (rule mod_add_left_eq)
  finally show ?case by (simp add: ac_simps)
qed

lemma scan_loop_reads:
  "scan_loop sp fl pos st = fold (scan_block sp) (scan_reads fl pos) st"
proof (induction sp fl pos st rule: scan_loop.induct)
  case (1 sp fl pos st)
  show ?case
    using "1.IH"
    by (subst scan_loop.simps, subst scan_reads.simps) (simp add: Let_def)
qed

lemma scan_reads_full_blocks:
  "list_all (\<lambda>b. length b = blocksize) (butlast (scan_reads fl pos))"
proof (induction fl pos rule: scan_reads.induct)
  case (1 fl pos)
  have nonempty: "scan_reads fl p \<noteq> []" for p
    by (subst scan_reads.simps) (simp add: Let_def)
  show ?case
    using "1.IH" nonempty
    by (subst scan_reads.simps) (auto simp: Let_def blocksize_def boost_def)
qed

lemma two_blocks:
  "scan_reads (replicate 24576 0 @ [0]) 0 = [replicate 24576 0, [0]]"
proof -
  have second: "scan_reads (replicate 24576 0 @ [0]) 24576 = [[0]]"
    by (subst scan_reads.simps) (simp add: Let_def blocksize_def boost_def)
  show ?thesis
    by (subst scan_reads.simps) (simp add: Let_def blocksize_def boost_def second)
qed

lemma d_run_buffer:
  assumes step: "\<And>b s. d (snd (step b s)) = (if d s + 1 = ch then 0 else d s + 1)"
    and ch: "1 \<le> ch"
  shows "0 \<le> d st \<Longrightarrow> d st < ch \<Longrightarrow>
         d (snd (run_buffer step buffer st)) = (d st + int (length buffer)) mod ch"
proof (induction buffer arbitrary: st)
  case Nil
  then show ?case by (simp add: mod_pos_pos_trivial)
next
  case (Cons b bs)
  let ?st = "snd (step b st)"
  have range: "0 \<le> d ?st" "d ?st < ch"
    using Cons.prems ch unfolding step by auto
  have md: "d ?st = (d st + 1) mod ch"
    using Cons.prems unfolding step by (auto simp: mod_pos_pos_trivial)
  have "d (snd (run_buffer step (b # bs) st)) = (d ?st + int (length bs)) mod ch"
    using Cons.IH [OF range] by (simp add: split_beta)
  also have "\<dots> = ((d st + 1) + int (length bs)) mod ch"
    unfolding md by (rule mod_add_left_eq)
  finally show ?case by (simp add: ac_simps)
qed

lemma d_encode_byte:
  "ch \<noteq> 0 \<Longrightarrow> d (snd (encode_byte idx ch b st)) = (if d st + 1 = ch then 0 else d st + 1)"
  by (simp add: encode_byte_def modulo_def deltaEnc_def adaptiveDeltaEnc_def Let_def)

lemma d_decode_byte:
  "ch \<noteq> 0 \<Longrightarrow> d (snd (decode_byte idx ch b st)) = (if d st + 1 = ch then 0 else d st + 1)"
  by (simp add: decode_byte_def modulo_def deltaDec_def adaptiveDeltaDec_def Let_def)

lemma d_commit_pass:
  assumes "1 \<le> ch" and "d st = 0"
  shows "d (snd (run_blocks (encode_byte idx ch) xs st)) = int (length xs) mod ch"
    and "d (snd (run_blocks (decode_byte idx ch) xs st)) = int (length xs) mod ch"
proof -
  have ch: "ch \<noteq> 0" and range: "0 \<le> d st" "d st < ch"
    using assms by simp_all
  show "d (snd (run_blocks (encode_byte idx ch) xs st)) = int (length xs) mod ch"
    using d_run_buffer [of "encode_byte idx ch" ch st xs, OF d_encode_byte [OF ch] assms(1) range]
      assms(2)
    by (simp add: run_blocks_whole)
  show "d (snd (run_blocks (decode_byte idx ch) xs st)) = int (length xs) mod ch"
    using d_run_buffer [of "decode_byte idx ch" ch st xs, OF d_decode_byte [OF ch] assms(1) range]
      assms(2)
    by (simp add: run_blocks_whole)
qed

lemma d_reset_variables: "d (reset_variables st) = d st"
  by (simp add: reset_variables_def)

text \<open>
  C9. When the commit pass starts, the lane counter \<open>d\<close> is 0, whatever it was when the
  scan started: \<^verbatim>\<open>resetModulo()\<close> is the last call for every candidate, so \<open>d\<close> is 0
  after every candidate and at the end of the scan, although the loop over the bytes
  leaves it at the number of bytes modulo the channel count; the reset of the filter
  variables between scan and commit does not assign \<open>d\<close>. Decoding starts from the
  initial value 0. So the commit pass and the decoding pass start from the same filter
  variables, and for a candidate with channel count \<open>n\<close> both are on lane \<open>k mod n\<close>
  after \<open>k\<close> bytes: they assign the same lanes. This holds for both sources (any
  \<open>split\<close>).
\<close>

theorem commit_counter_zero:
  "d (scan_index split buffer index st) = 0
   \<and> d (scan_pass split file st) = 0
   \<and> d (reset_variables st) = d st
   \<and> d (reset_variables (scan_pass split file st)) = 0
   \<and> d (reset_variables init_globals) = 0
   \<and> filter_vars (reset_variables (scan_pass split file st))
       = filter_vars (reset_variables init_globals)
   \<and> (1 \<le> uint (indexToChannel ! index) \<longrightarrow> 0 \<le> d st \<longrightarrow>
        d st < uint (indexToChannel ! index) \<longrightarrow>
        d (fold (scan_byte split index) buffer st)
        = (d st + int (length buffer)) mod uint (indexToChannel ! index))
   \<and> (1 \<le> uint (indexToChannel ! idx) \<longrightarrow>
        d (snd (run_blocks (encode_byte idx (uint (indexToChannel ! idx))) xs
                  (reset_variables (scan_pass split file st))))
        = int (length xs) mod uint (indexToChannel ! idx)
        \<and> d (snd (run_blocks (decode_byte idx (uint (indexToChannel ! idx))) xs
                    (reset_variables init_globals)))
          = int (length xs) mod uint (indexToChannel ! idx))"
proof -
  let ?ch = "uint (indexToChannel ! idx)"
  have scan: "d (scan_pass split file st) = 0"
    by (rule d_scan_pass)
  have enc: "d (reset_variables (scan_pass split file st)) = 0"
    using scan by (simp add: d_reset_variables)
  have dec: "d (reset_variables init_globals) = 0"
    by (simp add: reset_variables_def init_globals_def)
  have vars: "filter_vars (reset_variables (scan_pass split file st))
              = filter_vars (reset_variables init_globals)"
    using enc dec by (simp add: filter_vars_def reset_variables_def)
  have loop: "d (fold (scan_byte split index) buffer st)
        = (d st + int (length buffer)) mod uint (indexToChannel ! index)"
    if "1 \<le> uint (indexToChannel ! index)" "0 \<le> d st" "d st < uint (indexToChannel ! index)"
    using that by (rule d_fold_scan_byte)
  have lanes: "d (snd (run_blocks (encode_byte idx ?ch) xs
                        (reset_variables (scan_pass split file st))))
        = int (length xs) mod ?ch
        \<and> d (snd (run_blocks (decode_byte idx ?ch) xs (reset_variables init_globals)))
          = int (length xs) mod ?ch"
    if "1 \<le> ?ch"
    using d_commit_pass(1) [OF that enc] d_commit_pass(2) [OF that dec] by simp
  show ?thesis
    using d_scan_index [of split buffer index st] scan d_reset_variables [of st] enc dec vars
      loop lanes
    by blast
qed

theorem commit_counter_zero_witness:
  "d (init_globals\<lparr>d := 3\<rparr>) = 3
   \<and> d (scan_pass breakpoint [1, 2, 3] (init_globals\<lparr>d := 3\<rparr>)) = 0
   \<and> d (scan_pass 7 [1, 2, 3] (init_globals\<lparr>d := 3\<rparr>)) = 0
   \<and> 1 \<le> uint (indexToChannel ! 5)
   \<and> d (fold (scan_byte breakpoint 5) [1, 2, 3] (init_globals\<lparr>d := 3\<rparr>)) = 1
   \<and> d (snd (run_blocks (encode_byte 5 (uint (indexToChannel ! 5))) [1, 2, 3, 4, 5, 6, 7]
               (reset_variables (scan_pass breakpoint [1, 2, 3] (init_globals\<lparr>d := 3\<rparr>)))))
     = 2
   \<and> d (snd (run_blocks (decode_byte 5 (uint (indexToChannel ! 5))) [9, 9, 9, 9, 9, 9, 9]
               (reset_variables init_globals)))
     = 2"
proof -
  let ?st = "init_globals\<lparr>d := 3\<rparr>"
  have ch: "uint (indexToChannel ! 5) = 5"
    by (simp add: indexToChannel_def)
  have h: "1 \<le> uint (indexToChannel ! 5)" "0 \<le> d ?st" "d ?st < uint (indexToChannel ! 5)"
    "d ?st = 3"
    by (simp_all add: ch)
  have loop: "d (fold (scan_byte breakpoint 5) [1, 2, 3] ?st) = 1"
    using commit_counter_zero [of breakpoint "[1, 2, 3]" 5 ?st "[]" 0 "[]"] h
    by (simp add: ch)
  have enc: "d (snd (run_blocks (encode_byte 5 (uint (indexToChannel ! 5))) [1, 2, 3, 4, 5, 6, 7]
               (reset_variables (scan_pass breakpoint [1, 2, 3] ?st)))) = 2"
    using commit_counter_zero [of breakpoint "[]" 0 ?st "[1, 2, 3]" 5 "[1, 2, 3, 4, 5, 6, 7]"] h(1)
    by (simp add: ch)
  have dec: "d (snd (run_blocks (decode_byte 5 (uint (indexToChannel ! 5))) [9, 9, 9, 9, 9, 9, 9]
               (reset_variables init_globals))) = 2"
    using commit_counter_zero [of breakpoint "[]" 0 ?st "[]" 5 "[9, 9, 9, 9, 9, 9, 9]"] h(1)
    by (simp add: ch)
  have scans: "d (scan_pass breakpoint [1, 2, 3] ?st) = 0" "d (scan_pass 7 [1, 2, 3] ?st) = 0"
    using commit_counter_zero [of breakpoint "[]" 0 ?st "[1, 2, 3]" 0 "[]"]
      commit_counter_zero [of 7 "[]" 0 ?st "[1, 2, 3]" 0 "[]"]
    by blast+
  show ?thesis
    using h(1,4) scans loop enc dec by blast
qed

text \<open>
  C4, as amended. The scan is the loop over the blocks read, with the loop over the
  candidates inside it, and \<^verbatim>\<open>resetModulo()\<close> runs after every candidate on every
  block: the counter is reset between candidates and also between two blocks of the same
  candidate. Every candidate starts every block with the counter 0, and after a block of
  \<open>r\<close> bytes its counter stands at \<open>r mod n\<close> (\<open>n\<close> the channel count) before the reset.
  All blocks but the last have \<open>blocksize\<close> bytes, and \<open>blocksize mod n\<close> is 0 for
  the channel counts 1, 2, 3, 4, 6, 8, but 1 for 5 and 6 for 7: the lane sequence
  continues across blocks for the former and restarts for 5 and 7.
\<close>

theorem scan_counter_reset_every_block:
  "scan_loop split file pos st = fold (scan_block split) (scan_reads file pos) st
   \<and> list_all (\<lambda>b. length b = blocksize) (butlast (scan_reads file pos))
   \<and> d (scan_block split buffer st) = 0
   \<and> (d st = 0 \<longrightarrow> d (scan_entry split buffer index st) = 0)
   \<and> (d st = 0 \<longrightarrow> 1 \<le> uint (indexToChannel ! index) \<longrightarrow>
        d (fold (scan_byte split index) buffer (scan_entry split buffer index st))
        = int (length buffer) mod uint (indexToChannel ! index))
   \<and> map (\<lambda>n. blocksize mod n) [1, 2, 3, 4, 5, 6, 7, 8] = [0, 0, 0, 0, 1, 0, 6, 0]"
proof -
  have entry: "d (scan_entry split buffer index st) = 0" if "d st = 0"
    using that by (rule d_scan_entry)
  have after: "d (fold (scan_byte split index) buffer (scan_entry split buffer index st))
        = int (length buffer) mod uint (indexToChannel ! index)"
    if "d st = 0" "1 \<le> uint (indexToChannel ! index)"
    using d_fold_scan_byte [OF that(2), of "scan_entry split buffer index st" split buffer]
      entry [OF that(1)] that(2)
    by simp
  have mods: "map (\<lambda>n. blocksize mod n) [1, 2, 3, 4, 5, 6, 7, 8] = [0, 0, 0, 0, 1, 0, 6, 0]"
    by (simp add: blocksize_def)
  show ?thesis
    using scan_loop_reads [of "split" "file" pos st] scan_reads_full_blocks [of "file" pos]
      entry after mods
    by simp
qed

theorem scan_counter_reset_every_block_witness:
  "d (init_globals\<lparr>fileLength := 24577\<rparr>) = 0
   \<and> 1 \<le> uint (indexToChannel ! 5)
   \<and> d (scan_entry breakpoint (replicate 24576 0) 5 (init_globals\<lparr>fileLength := 24577\<rparr>)) = 0
   \<and> d (fold (scan_byte breakpoint 5) (replicate 24576 0)
          (scan_entry breakpoint (replicate 24576 0) 5 (init_globals\<lparr>fileLength := 24577\<rparr>)))
     = 1"
proof -
  have h1: "d (init_globals\<lparr>fileLength := 24577\<rparr>) = 0"
    by (simp add: init_globals_def)
  have ch: "uint (indexToChannel ! 5) = 5"
    by (simp add: indexToChannel_def)
  show ?thesis
    using h1 ch
      scan_counter_reset_every_block
        [of breakpoint "[]" 0 "init_globals\<lparr>fileLength := 24577\<rparr>" "replicate 24576 0" 5]
    by simp
qed

text \<open>
  C4 as stated fails for the candidate 5 (5 channels) on a file of 24577 bytes, read as
  a block of 24576 bytes and a block of 1 byte: the last byte of the first block is on
  lane 1, and the first byte of the second block is on lane 1 again, not on lane 2.
\<close>

theorem scan_lane_continuity_counterexample:
  "scan_reads (replicate 24576 0 @ [0]) 0 = [replicate 24576 0, [0]]
   \<and> uint (indexToChannel ! 5) = 5
   \<and> d (fold (scan_byte breakpoint 5) (replicate 24576 0)
          (scan_entry breakpoint (replicate 24576 0) 5 (init_globals\<lparr>fileLength := 24577\<rparr>)))
     = 1
   \<and> d (scan_entry breakpoint [0] 5
          (scan_block breakpoint (replicate 24576 0) (init_globals\<lparr>fileLength := 24577\<rparr>)))
     = 0
   \<and> fst (modulo 5 0) = 1"
proof -
  let ?st0 = "init_globals\<lparr>fileLength := 24577\<rparr>"
  have ch: "uint (indexToChannel ! 5) = 5"
    by (simp add: indexToChannel_def)
  have one: "1 \<le> uint (indexToChannel ! 5)"
    by (simp add: ch)
  have d0: "d ?st0 = 0"
    by (simp add: init_globals_def)
  have entry1: "d (scan_entry breakpoint (replicate 24576 0) 5 ?st0) = 0"
    using d0 by (rule d_scan_entry)
  have last1: "d (fold (scan_byte breakpoint 5) (replicate 24576 0)
                   (scan_entry breakpoint (replicate 24576 0) 5 ?st0)) = 1"
    using d_fold_scan_byte [OF one, of "scan_entry breakpoint (replicate 24576 0) 5 ?st0"
        breakpoint "replicate 24576 0"] entry1
    by (simp add: ch)
  have entry2: "d (scan_entry breakpoint [0] 5 (scan_block breakpoint (replicate 24576 0) ?st0)) = 0"
    by (rule d_scan_entry) simp
  have lane: "fst (modulo 5 0) = 1"
    by (simp add: modulo_def)
  show ?thesis
    using two_blocks ch last1 entry2 lane by simp
qed

section \<open>The histograms and the probabilities\<close>

subsection \<open>Every byte read is counted once for every candidate\<close>

lemma freq_shape_init: "freq_shape init_globals"
  by (simp add: freq_shape_def init_globals_def list_all_iff)

lemma freq_shape_row: "freq_shape st \<Longrightarrow> c < 15 \<Longrightarrow> length (freq st ! c) = 256"
  by (simp add: freq_shape_def list_all_length)

lemma byte_index: "unat (r :: byte) < 256"
  using unsigned_less [of r, where ?'a = nat] by simp

lemma freq_shape_count:
  assumes "freq_shape st"
  shows "freq_shape (count r index st)"
proof -
  have len: "length (freq st) = 15" and rows: "\<And>n. n < 15 \<Longrightarrow> length (freq st ! n) = 256"
    using assms by (simp_all add: freq_shape_def list_all_length)
  have "length (freq (count r index st) ! n) = 256" if "n < 15" for n
    using rows [OF that] len that by (cases "n = index") (simp_all add: count_def)
  then show ?thesis
    using len by (simp add: freq_shape_def list_all_length count_def)
qed

lemma row_sum_count:
  assumes "freq_shape st" and "index < 15"
  shows "sum_list (freq (count r index st) ! c)
         = sum_list (freq st ! c) + (if c = index then 1 else 0)"
proof (cases "c = index")
  case True
  have len: "length (freq st) = 15"
    using assms(1) by (simp add: freq_shape_def)
  have row: "unat r < length (freq st ! index)"
    using freq_shape_row [OF assms] byte_index [of r] by simp
  show ?thesis
    using True len assms(2) row by (simp add: count_def sum_list_update)
next
  case False
  then show ?thesis by (simp add: count_def)
qed

lemma freq_scan_byte:
  "\<exists>r. freq (scan_byte split index b st) = freq (count r index st)"
  by (auto simp: scan_byte_def count_def deltaEnc_def adaptiveDeltaEnc_def Let_def split_beta)

lemma freq_shape_scan_byte:
  assumes "freq_shape st"
  shows "freq_shape (scan_byte split index b st)"
proof -
  obtain r where r: "freq (scan_byte split index b st) = freq (count r index st)"
    using freq_scan_byte by blast
  show ?thesis
    using freq_shape_count [OF assms, of r index] r by (simp add: freq_shape_def)
qed

lemma row_sum_scan_byte:
  assumes "freq_shape st" and "index < 15"
  shows "sum_list (freq (scan_byte split index b st) ! c)
         = sum_list (freq st ! c) + (if c = index then 1 else 0)"
proof -
  obtain r where r: "freq (scan_byte split index b st) = freq (count r index st)"
    using freq_scan_byte by blast
  show ?thesis
    unfolding r by (rule row_sum_count [OF assms])
qed

lemma row_sum_fold_scan_byte:
  assumes "index < 15"
  shows "freq_shape st \<Longrightarrow>
         freq_shape (fold (scan_byte split index) buffer st)
         \<and> sum_list (freq (fold (scan_byte split index) buffer st) ! c)
           = sum_list (freq st ! c) + (if c = index then length buffer else 0)"
proof (induction buffer arbitrary: st)
  case Nil
  then show ?case by simp
next
  case (Cons b bs)
  have shape: "freq_shape (scan_byte split index b st)"
    using Cons.prems by (rule freq_shape_scan_byte)
  show ?case
    using Cons.IH [OF shape] row_sum_scan_byte [OF Cons.prems assms, of split b c]
    by simp
qed

lemma row_sum_scan_index:
  assumes "index < 15" and "freq_shape st"
  shows "freq_shape (scan_index split buffer index st)"
    and "sum_list (freq (scan_index split buffer index st) ! c)
         = sum_list (freq st ! c) + (if c = index then length buffer else 0)"
  using row_sum_fold_scan_byte [OF assms, of split buffer c]
  by (simp_all add: scan_index_def resetModulo_def freq_shape_def)

lemma row_sum_fold_scan_index:
  "freq_shape st \<Longrightarrow> distinct js \<Longrightarrow> list_all (\<lambda>j. j < 15) js \<Longrightarrow>
   freq_shape (fold (scan_index split buffer) js st)
   \<and> sum_list (freq (fold (scan_index split buffer) js st) ! c)
     = sum_list (freq st ! c) + (if c \<in> set js then length buffer else 0)"
proof (induction js arbitrary: st)
  case Nil
  then show ?case by simp
next
  case (Cons j js)
  have j: "j < 15" using Cons.prems by simp
  have shape: "freq_shape (scan_index split buffer j st)"
    using row_sum_scan_index(1) [OF j Cons.prems(1)] .
  have rest: "distinct js" "list_all (\<lambda>j. j < 15) js" "j \<notin> set js"
    using Cons.prems by simp_all
  show ?case
    using Cons.IH [OF shape rest(1,2)] row_sum_scan_index(2) [OF j Cons.prems(1), of split buffer c]
      rest(3)
    by auto
qed

lemma row_sum_scan_block:
  assumes "freq_shape st" and "c < 15"
  shows "freq_shape (scan_block split buffer st)"
    and "sum_list (freq (scan_block split buffer st) ! c) = sum_list (freq st ! c) + length buffer"
proof -
  have all: "list_all (\<lambda>j. j < 15) [0..<totalChannels]"
    by (simp add: list_all_iff totalChannels_def)
  have mem: "c \<in> set [0..<totalChannels]"
    using assms(2) by (simp add: totalChannels_def)
  show "freq_shape (scan_block split buffer st)"
    and "sum_list (freq (scan_block split buffer st) ! c) = sum_list (freq st ! c) + length buffer"
    using row_sum_fold_scan_index [OF assms(1) distinct_upt all, of split buffer c] mem
    by (simp_all add: scan_block_def)
qed

lemma row_sum_fold_scan_block:
  assumes "c < 15"
  shows "freq_shape st \<Longrightarrow>
         freq_shape (fold (scan_block split) blocks st)
         \<and> sum_list (freq (fold (scan_block split) blocks st) ! c)
           = sum_list (freq st ! c) + sum_list (map length blocks)"
proof (induction blocks arbitrary: st)
  case Nil
  then show ?case by simp
next
  case (Cons b bs)
  show ?case
    using Cons.IH [OF row_sum_scan_block(1) [OF Cons.prems assms]]
      row_sum_scan_block(2) [OF Cons.prems assms, of split b]
    by simp
qed

lemma fileLength_scan_byte [simp]: "fileLength (scan_byte split index b st) = fileLength st"
  by (simp add: scan_byte_def count_def deltaEnc_def adaptiveDeltaEnc_def Let_def split_beta)

lemma fileLength_fold_scan_byte [simp]:
  "fileLength (fold (scan_byte split index) buffer st) = fileLength st"
  by (induction buffer arbitrary: st) simp_all

lemma fileLength_scan_index [simp]:
  "fileLength (scan_index split buffer index st) = fileLength st"
  by (simp add: scan_index_def resetModulo_def)

lemma fileLength_fold_scan_index [simp]:
  "fileLength (fold (scan_index split buffer) js st) = fileLength st"
  by (induction js arbitrary: st) simp_all

lemma fileLength_scan_block [simp]: "fileLength (scan_block split buffer st) = fileLength st"
  by (simp add: scan_block_def)

lemma fileLength_fold_scan_block [simp]:
  "fileLength (fold (scan_block split) blocks st) = fileLength st"
  by (induction blocks arbitrary: st) simp_all

lemma fileLength_scan_pass: "fileLength (scan_pass split file st) = length file"
  by (simp add: scan_pass_def scan_loop_reads)

lemma row_sum_scan_pass:
  assumes "c < 15"
  shows "sum_list (freq (scan_pass split file init_globals) ! c) = sampledByteTotal file"
    and "length (freq (scan_pass split file init_globals) ! c) = 256"
proof -
  let ?st0 = "init_globals\<lparr>fileLength := length file\<rparr>"
  have shape0: "freq_shape ?st0"
    using freq_shape_init by (simp add: freq_shape_def)
  have zero: "sum_list (freq ?st0 ! c) = 0"
    using assms by (simp add: init_globals_def)
  have both: "freq_shape (fold (scan_block split) (scan_reads file 0) ?st0)
         \<and> sum_list (freq (fold (scan_block split) (scan_reads file 0) ?st0) ! c)
           = sum_list (freq ?st0 ! c) + sum_list (map length (scan_reads file 0))"
    using shape0 by (rule row_sum_fold_scan_block [OF assms])
  show "sum_list (freq (scan_pass split file init_globals) ! c) = sampledByteTotal file"
    using both zero by (simp add: scan_pass_def scan_loop_reads sampledByteTotal_def)
  show "length (freq (scan_pass split file init_globals) ! c) = 256"
    using both assms by (simp add: scan_pass_def scan_loop_reads freq_shape_row)
qed

lemma sum_quotients: "sum_list (map (\<lambda>x. real x / l) row) = real (sum_list row) / l"
  by (induction row) (simp_all add: add_divide_distrib)

lemma probabilities_sum:
  assumes "length (freq st ! c) = 256"
  shows "sum_list (map (charProbability st c) [0..<256])
         = real (sum_list (freq st ! c)) / real (fileLength st)"
proof -
  have "map (charProbability st c) [0..<256]
        = map (\<lambda>x. real x / real (fileLength st)) (map (nth (freq st ! c)) [0..<length (freq st ! c)])"
    by (simp add: assms charProbability_def)
  also have "map (nth (freq st ! c)) [0..<length (freq st ! c)] = freq st ! c"
    by (rule map_nth)
  finally show ?thesis
    by (simp add: sum_quotients)
qed

lemma scan_reads_no_stride:
  "length fl \<le> pos + blocksize + blocksize * boost \<Longrightarrow>
   concat (scan_reads fl pos) = drop pos fl"
proof (induction fl pos rule: scan_reads.induct)
  case (1 fl pos)
  let ?buffer = "take blocksize (drop pos fl)"
  have no_stride: "\<not> pos + length ?buffer + blocksize * boost < length fl"
    using "1.prems" by (auto simp: min_def)
  show ?case
  proof (cases "length ?buffer = blocksize")
    case True
    have "concat (scan_reads fl (pos + length ?buffer)) = drop (pos + length ?buffer) fl"
      using "1.prems" True by (intro "1.IH"(2) [OF refl refl refl no_stride True]) simp
    moreover have "drop (pos + length ?buffer) fl = drop blocksize (drop pos fl)"
      using True by (simp add: add.commute)
    ultimately have "concat (scan_reads fl pos) = ?buffer @ drop blocksize (drop pos fl)"
      using no_stride True
      by (subst scan_reads.simps) (simp add: Let_def del: drop_drop)
    then show ?thesis by (simp only: append_take_drop_id)
  next
    case False
    then have "?buffer = drop pos fl" by simp
    then show ?thesis
      using no_stride False by (subst scan_reads.simps) (simp add: Let_def)
  qed
qed

lemma sampled_whole_file:
  assumes "length file \<le> blocksize + blocksize * boost"
  shows "sampledByteTotal file = length file"
proof -
  have "concat (scan_reads file 0) = file"
    using scan_reads_no_stride [of "file" 0] assms by simp
  then have "length (concat (scan_reads file 0)) = length file" by simp
  then show ?thesis
    by (simp add: sampledByteTotal_def length_concat)
qed

lemma sampled_strided:
  "sampledByteTotal (replicate 614401 0) = 24577"
proof -
  have second: "scan_reads (replicate 614401 (0::byte)) 614400 = [[0]]"
    by (subst scan_reads.simps) (simp add: Let_def blocksize_def boost_def)
  have "scan_reads (replicate 614401 (0::byte)) 0 = [replicate 24576 0, [0]]"
    by (subst scan_reads.simps) (simp add: Let_def blocksize_def boost_def second)
  then show ?thesis
    by (simp add: sampledByteTotal_def)
qed

text \<open>
  C2, as amended. In the entropy computation the probability of a symbol is its count
  divided by \<^verbatim>\<open>fileLength\<close>, which the scan sets to the length of the whole file.
  For every candidate the counts of the 256 symbols add up to the number of bytes the
  scan read, so the probabilities add up to that number divided by the length of the
  file. The two numbers agree when the file has at most \<open>blocksize + blocksize * boost\<close>
  bytes (the scan then never strides), and the probabilities of a non-empty such file
  add up to 1.
\<close>

theorem probabilities_over_file_length:
  assumes "c < totalChannels"
  shows "fileLength (scan_pass split file init_globals) = length file
       \<and> charProbability (scan_pass split file init_globals) c i
         = real (freq (scan_pass split file init_globals) ! c ! i) / real (length file)
       \<and> sum_list (freq (scan_pass split file init_globals) ! c) = sampledByteTotal file
       \<and> sum_list (map (charProbability (scan_pass split file init_globals) c) [0..<256])
         = real (sampledByteTotal file) / real (length file)
       \<and> (length file \<le> blocksize + blocksize * boost \<longrightarrow> sampledByteTotal file = length file)"
proof -
  have c: "c < 15" using assms by (simp add: totalChannels_def)
  show ?thesis
    using fileLength_scan_pass [of split "file" init_globals]
      row_sum_scan_pass [OF c, of split "file"]
      probabilities_sum [OF row_sum_scan_pass(2) [OF c, of split "file"]]
      sampled_whole_file [of "file"]
    by (simp add: charProbability_def)
qed

theorem probabilities_over_file_length_witness:
  "(0::nat) < totalChannels
   \<and> length [1, 2, 3 :: byte] \<le> blocksize + blocksize * boost
   \<and> sampledByteTotal [1, 2, 3] = 3
   \<and> sum_list (map (charProbability (scan_pass breakpoint [1, 2, 3] init_globals) 0) [0..<256]) = 1"
proof -
  have h1: "(0::nat) < totalChannels" by (simp add: totalChannels_def)
  have h2: "length [1, 2, 3 :: byte] \<le> blocksize + blocksize * boost"
    by (simp add: blocksize_def)
  note inst = probabilities_over_file_length [OF h1, of breakpoint "[1, 2, 3]"]
  have sampled: "sampledByteTotal [1, 2, 3] = 3"
    using inst h2 by simp
  have "sum_list (map (charProbability (scan_pass breakpoint [1, 2, 3] init_globals) 0) [0..<256])
        = real (sampledByteTotal [1, 2, 3]) / real (length [1, 2, 3 :: byte])"
    using inst by blast
  then have "sum_list (map (charProbability (scan_pass breakpoint [1, 2, 3] init_globals) 0) [0..<256])
        = 1"
    unfolding sampled by simp
  then show ?thesis
    using h1 h2 sampled by simp
qed

text \<open>
  C2 as stated fails on a file of 614401 bytes: the scan reads 24577 of them, the
  divisor is 614401, and the probabilities of candidate 0 add up to 24577 / 614401.
\<close>

theorem probabilities_counterexample:
  "length (replicate 614401 (0::byte)) = 614401
   \<and> fileLength (scan_pass breakpoint (replicate 614401 0) init_globals) = 614401
   \<and> sampledByteTotal (replicate 614401 0) = 24577
   \<and> sum_list (freq (scan_pass breakpoint (replicate 614401 0) init_globals) ! 0) = 24577
   \<and> sum_list (map (charProbability (scan_pass breakpoint (replicate 614401 0) init_globals) 0)
                 [0..<256])
     = 24577 / 614401"
proof -
  have c: "(0::nat) < 15" by simp
  show ?thesis
    using fileLength_scan_pass [of breakpoint "replicate 614401 0" init_globals]
      row_sum_scan_pass [OF c, of breakpoint "replicate 614401 0"]
      probabilities_sum [OF row_sum_scan_pass(2) [OF c, of breakpoint "replicate 614401 0"]]
      sampled_strided
    by simp
qed

section \<open>The scan of the two sources\<close>

subsection \<open>What one byte does to the globals in the scan\<close>


lemma scan_byte_delta:
  assumes "uint (indexToChannel ! index) \<noteq> 0" and "index < split"
    and "m = fst (modulo (uint (indexToChannel ! index)) (d st))"
  shows "scan_byte split index b st
         = count (previous st ! nat m - b) index
             (st\<lparr>d := m, previous := (previous st)[nat m := b]\<rparr>)"
  using assms by (simp add: scan_byte_def modulo_def deltaEnc_def Let_def)

lemma scan_byte_adaptive:
  assumes "uint (indexToChannel ! index) \<noteq> 0" and "\<not> index < split"
    and "m = fst (modulo (uint (indexToChannel ! index)) (d st))"
    and "w = weight st div 2 ^ rate"
    and "r = word_of_int w
             + ((previousByte st ! nat m - secondPreviousByte st ! nat m
                 + previousByte st ! nat m) - b)"
  shows "scan_byte split index b st
         = count r index
             (st\<lparr>d := m,
                weight := updateWeight r (weight st),
                secondPreviousByte := (secondPreviousByte st)[nat m := previousByte st ! nat m],
                previousByte := (previousByte st)[nat m := word_of_int w + b]\<rparr>)"
  using assms
  by (simp add: scan_byte_def modulo_def adaptiveDeltaEnc_def Let_def byte_promotion)

lemma scan_index_single:
  "scan_index split [b] index st = (scan_byte split index b st)\<lparr>d := 0\<rparr>"
  by (simp add: scan_index_def resetModulo_def)

lemma scan_entry_Suc:
  "scan_entry split buffer (Suc index) st
   = scan_index split buffer index (scan_entry split buffer index st)"
  by (simp add: scan_entry_def)

lemma scan_block_entry: "scan_block split buffer st = scan_entry split buffer totalChannels st"
  by (simp add: scan_block_def scan_entry_def)

lemma scan_pass_one_block:
  assumes "length fl < blocksize"
  shows "scan_pass split fl st = scan_block split fl (st\<lparr>fileLength := length fl\<rparr>)"
proof -
  have "scan_reads fl 0 = [fl]"
    using assms by (subst scan_reads.simps) (simp add: Let_def)
  then show ?thesis
    by (simp add: scan_pass_def scan_loop_reads)
qed

subsection \<open>What a candidate leaves alone\<close>

lemma row_other_scan_byte:
  "c \<noteq> index \<Longrightarrow> freq (scan_byte split index b st) ! c = freq st ! c"
  using freq_scan_byte [of split index b st] by (auto simp: count_def)

lemma row_other_scan_index:
  "c \<noteq> index \<Longrightarrow> freq (scan_index split buffer index st) ! c = freq st ! c"
proof -
  have "c \<noteq> index \<Longrightarrow> freq (fold (scan_byte split index) buffer s) ! c = freq s ! c" for s
    by (induction buffer arbitrary: s) (simp_all add: row_other_scan_byte)
  then show "c \<noteq> index \<Longrightarrow> freq (scan_index split buffer index st) ! c = freq st ! c"
    by (simp add: scan_index_def resetModulo_def)
qed

lemma row_other_fold_scan_index:
  "c \<notin> set js \<Longrightarrow> freq (fold (scan_index split buffer) js st) ! c = freq st ! c"
  by (induction js arbitrary: st) (simp_all add: row_other_scan_index)

lemma adaptive_vars_scan_byte:
  assumes "index < split \<or> uint (indexToChannel ! index) = 0"
  shows "previousByte (scan_byte split index b st) = previousByte st
       \<and> secondPreviousByte (scan_byte split index b st) = secondPreviousByte st
       \<and> weight (scan_byte split index b st) = weight st"
  using assms
  by (auto simp: scan_byte_def count_def deltaEnc_def Let_def split_beta)

lemma adaptive_vars_scan_index:
  assumes "index < split \<or> uint (indexToChannel ! index) = 0"
  shows "previousByte (scan_index split buffer index st) = previousByte st
       \<and> secondPreviousByte (scan_index split buffer index st) = secondPreviousByte st
       \<and> weight (scan_index split buffer index st) = weight st"
proof -
  have "previousByte (fold (scan_byte split index) buffer s) = previousByte s
       \<and> secondPreviousByte (fold (scan_byte split index) buffer s) = secondPreviousByte s
       \<and> weight (fold (scan_byte split index) buffer s) = weight s" for s
    by (induction buffer arbitrary: s) (simp_all add: adaptive_vars_scan_byte [OF assms])
  then show ?thesis
    by (simp add: scan_index_def resetModulo_def)
qed

lemma adaptive_vars_scan_entry:
  assumes "index \<le> split"
  shows "previousByte (scan_entry split buffer index st) = previousByte st
       \<and> secondPreviousByte (scan_entry split buffer index st) = secondPreviousByte st
       \<and> weight (scan_entry split buffer index st) = weight st"
  using assms
proof (induction index)
  case 0
  then show ?case by (simp add: scan_entry_def)
next
  case (Suc index)
  then have "index < split \<or> uint (indexToChannel ! index) = 0" by simp
  from adaptive_vars_scan_index [OF this, of buffer "scan_entry split buffer index st"] Suc
  show ?case by (simp add: scan_entry_Suc)
qed

lemma length_previous_scan_byte [simp]:
  "length (previous (scan_byte split index b st)) = length (previous st)"
  by (simp add: scan_byte_def count_def deltaEnc_def adaptiveDeltaEnc_def Let_def split_beta)

lemma length_previous_scan_index [simp]:
  "length (previous (scan_index split buffer index st)) = length (previous st)"
proof -
  have "length (previous (fold (scan_byte split index) buffer s)) = length (previous s)" for s
    by (induction buffer arbitrary: s) simp_all
  then show ?thesis
    by (simp add: scan_index_def resetModulo_def)
qed

lemma length_previous_scan_entry [simp]:
  "length (previous (scan_entry split buffer index st)) = length (previous st)"
  by (induction index) (simp_all add: scan_entry_def)

lemma freq_shape_scan_entry:
  "freq_shape st \<Longrightarrow> index \<le> 15 \<Longrightarrow> freq_shape (scan_entry split buffer index st)"
proof (induction index)
  case 0
  then show ?case by (simp add: scan_entry_def)
next
  case (Suc index)
  then have "index < 15" and "freq_shape (scan_entry split buffer index st)" by simp_all
  then show ?case
    unfolding scan_entry_Suc by (rule row_sum_scan_index(1))
qed

lemma row_before_scan_entry:
  "index \<le> c \<Longrightarrow> freq (scan_entry split buffer index st) ! c = freq st ! c"
  by (simp add: scan_entry_def row_other_fold_scan_index)

lemma row_after_scan_entry:
  "Suc c \<le> index \<Longrightarrow>
   freq (scan_entry split buffer index st) ! c = freq (scan_entry split buffer (Suc c) st) ! c"
proof (induction index rule: dec_induct)
  case base
  show ?case by simp
next
  case (step n)
  then show ?case
    by (simp add: scan_entry_Suc row_other_scan_index)
qed

lemma first_lane: "2 \<le> ch \<Longrightarrow> fst (modulo ch 0) = 1"
  by (simp add: modulo_def)

lemma first_byte_delta:
  assumes "2 \<le> uint (indexToChannel ! index)" and "index < split" and "d st = 0"
  shows "freq (scan_index split [b] index st)
         = freq (count (previous st ! 1 - b) index st)"
    and "previous (scan_index split [b] index st) = (previous st)[1 := b]"
proof -
  have ch: "uint (indexToChannel ! index) \<noteq> 0"
    using assms(1) by simp
  have m: "1 = fst (modulo (uint (indexToChannel ! index)) (d st))"
    using first_lane [OF assms(1)] assms(3) by simp
  note byte = scan_byte_delta [OF ch assms(2) m, of b]
  show "freq (scan_index split [b] index st) = freq (count (previous st ! 1 - b) index st)"
    by (simp add: scan_index_single byte count_def)
  show "previous (scan_index split [b] index st) = (previous st)[1 := b]"
    by (simp add: scan_index_single byte count_def)
qed

lemma first_byte_adaptive:
  assumes "2 \<le> uint (indexToChannel ! index)" and "\<not> index < split" and "d st = 0"
    and "r = word_of_int (weight st div 2 ^ rate)
             + ((previousByte st ! 1 - secondPreviousByte st ! 1 + previousByte st ! 1) - b)"
  shows "freq (scan_index split [b] index st) = freq (count r index st)"
proof -
  have ch: "uint (indexToChannel ! index) \<noteq> 0"
    using assms(1) by simp
  have m: "1 = fst (modulo (uint (indexToChannel ! index)) (d st))"
    using first_lane [OF assms(1)] assms(3) by simp
  have r: "r = word_of_int (weight st div 2 ^ rate)
             + ((previousByte st ! nat 1 - secondPreviousByte st ! nat 1
                 + previousByte st ! nat 1) - b)"
    using assms(4) by simp
  note byte = scan_byte_adaptive [OF ch assms(2) m refl r]
  show ?thesis
    by (simp add: scan_index_single byte count_def)
qed

lemma counted_row:
  assumes "freq st ! index = replicate 256 0" and "index < length (freq st)"
  shows "freq (count r index st) ! index = (replicate 256 0)[unat r := 1]"
  using assms byte_index [of r] by (simp add: count_def)

subsection \<open>The scan of the one-byte file\<close>

lemma one_byte_file:
  "scan_pass split [b] init_globals
   = scan_entry split [b] 15 (init_globals\<lparr>fileLength := 1\<rparr>)"
proof -
  have "length [b] < blocksize" by (simp add: blocksize_def)
  from scan_pass_one_block [OF this, of split init_globals] show ?thesis
    by (simp add: scan_block_entry totalChannels_def)
qed

lemma one_byte_row:
  assumes "c < 15"
  shows "freq (scan_pass split [b] init_globals) ! c
         = freq (scan_index split [b] c
                   (scan_entry split [b] c (init_globals\<lparr>fileLength := 1\<rparr>))) ! c"
proof -
  have "Suc c \<le> 15" using assms by simp
  from row_after_scan_entry [OF this] show ?thesis
    by (simp add: one_byte_file scan_entry_Suc)
qed

lemma one_byte_entry:
  assumes "c < 15"
  shows "d (scan_entry split [b] c (init_globals\<lparr>fileLength := 1\<rparr>)) = 0"
    and "freq (scan_entry split [b] c (init_globals\<lparr>fileLength := 1\<rparr>)) ! c = replicate 256 0"
    and "c < length (freq (scan_entry split [b] c (init_globals\<lparr>fileLength := 1\<rparr>)))"
proof -
  let ?st0 = "init_globals\<lparr>fileLength := 1\<rparr>"
  have d0: "d ?st0 = 0" by (simp add: init_globals_def)
  have shape0: "freq_shape ?st0"
    using freq_shape_init by (simp add: freq_shape_def)
  show "d (scan_entry split [b] c ?st0) = 0"
    using d0 by (rule d_scan_entry)
  have "freq ?st0 ! c = replicate 256 0"
    using assms by (simp add: init_globals_def)
  then show "freq (scan_entry split [b] c ?st0) ! c = replicate 256 0"
    by (simp add: row_before_scan_entry)
  have "freq_shape (scan_entry split [b] c ?st0)"
    using shape0 assms by (intro freq_shape_scan_entry) simp_all
  then show "c < length (freq (scan_entry split [b] c ?st0))"
    using assms by (simp add: freq_shape_def)
qed

lemma lite_row_7: "freq (scan_pass 7 [1] init_globals) ! 7 = (replicate 256 0)[255 := 1]"
proof -
  let ?E = "scan_entry 7 [1] 7 (init_globals\<lparr>fileLength := 1\<rparr>)"
  have c: "(7::nat) < 15" by simp
  have ch: "2 \<le> uint (indexToChannel ! 7)"
    by (simp add: indexToChannel_def)
  have vars: "previousByte ?E = replicate 8 0" "secondPreviousByte ?E = replicate 8 0"
    "weight ?E = 0"
    using adaptive_vars_scan_entry [of 7 7 "[1]" "init_globals\<lparr>fileLength := 1\<rparr>"]
    by (simp_all add: init_globals_def)
  have r: "(255 :: byte) = word_of_int (weight ?E div 2 ^ rate)
             + ((previousByte ?E ! 1 - secondPreviousByte ?E ! 1 + previousByte ?E ! 1) - 1)"
    unfolding vars by simp
  have "freq (scan_index 7 [1] 7 ?E) = freq (count 255 7 ?E)"
    using ch _ one_byte_entry(1) [OF c] r by (rule first_byte_adaptive) simp
  then show ?thesis
    using counted_row [where r = 255, OF one_byte_entry(2) [OF c] one_byte_entry(3) [OF c], of 7 1]
    by (simp add: one_byte_row [OF c])
qed

lemma delta_row_after_delta:
  assumes "Suc j < 15" and "Suc j < split"
    and "2 \<le> uint (indexToChannel ! j)" and "2 \<le> uint (indexToChannel ! Suc j)"
  shows "freq (scan_pass split [b] init_globals) ! Suc j = (replicate 256 0)[0 := 1]"
proof -
  let ?st0 = "init_globals\<lparr>fileLength := 1\<rparr>"
  let ?E' = "scan_entry split [b] j ?st0"
  let ?E = "scan_entry split [b] (Suc j) ?st0"
  have j: "j < 15" "j < split" using assms(1,2) by simp_all
  have E: "?E = scan_index split [b] j ?E'"
    by (rule scan_entry_Suc)
  have "previous ?E = (previous ?E')[1 := b]"
    unfolding E using assms(3) j(2) one_byte_entry(1) [OF j(1)] by (rule first_byte_delta(2))
  moreover have "length (previous ?E') = 8"
    by (simp add: init_globals_def)
  ultimately have prev: "previous ?E ! 1 = b" by simp
  have "freq (scan_index split [b] (Suc j) ?E) = freq (count (previous ?E ! 1 - b) (Suc j) ?E)"
    using assms(4,2) one_byte_entry(1) [OF assms(1)] by (rule first_byte_delta(1))
  then have "freq (scan_index split [b] (Suc j) ?E) = freq (count 0 (Suc j) ?E)"
    unfolding prev by simp
  then show ?thesis
    using counted_row [where r = 0, OF one_byte_entry(2) [OF assms(1)] one_byte_entry(3) [OF assms(1)],
        of split b]
    by (simp add: one_byte_row [OF assms(1)])
qed

lemma full_row_7: "freq (scan_pass breakpoint [1] init_globals) ! 7 = (replicate 256 0)[0 := 1]"
  using delta_row_after_delta [of 6 breakpoint 1]
  by (simp add: breakpoint_def indexToChannel_def)

text \<open>
  C3. The two sources do not run the same scan. \<^verbatim>\<open>prepack.c\<close> filters the candidates
  below \<open>breakpoint\<close> = 10 with the delta filter; the scan of \<^verbatim>\<open>prepack_lite.c\<close>
  tests \<^verbatim>\<open>index < 7\<close> and filters the candidates 7, 8 and 9 with the adaptive filter,
  though its own commit pass and its decoder use \<open>breakpoint\<close>. On the file of the one
  byte 1 the histogram of candidate 7 counts the residual 255 in \<^verbatim>\<open>prepack_lite.c\<close> and
  the residual 0 in \<^verbatim>\<open>prepack.c\<close>.
\<close>

theorem lite_scan_histogram_differs:
  "freq (scan_pass 7 [1] init_globals) ! 7 = (replicate 256 0)[255 := 1]
   \<and> freq (scan_pass breakpoint [1] init_globals) ! 7 = (replicate 256 0)[0 := 1]
   \<and> freq (scan_pass 7 [1] init_globals) ! 7 ! 255 = 1
   \<and> freq (scan_pass breakpoint [1] init_globals) ! 7 ! 255 = 0"
  by (simp add: lite_row_7 full_row_7)

section \<open>The filter state during the scan\<close>



subsection \<open>What the histogram row of a candidate depends on\<close>





subsection \<open>Files of one block\<close>






subsection \<open>A residual is computed from the state the candidate finds\<close>





subsection \<open>A history outlives the candidate that wrote it\<close>

lemma length_previous_fold_scan_byte [simp]:
  "length (previous (fold (scan_byte split index) buffer st)) = length (previous st)"
  by (induction buffer arbitrary: st) simp_all





section \<open>The whole program\<close>

lemma fold_choice_member:
  "fst (fold (\<lambda>i (index, mn). if P i mn then (i, g i) else (index, mn)) js (i0, m0))
   \<in> set (i0 # js)"
proof (induction js arbitrary: i0 m0)
  case Nil
  then show ?case by simp
next
  case (Cons j js)
  show ?case
    using Cons.IH [of j "g j"] Cons.IH [of i0 m0] by auto
qed

lemma findSmallestChannel_range: "findSmallestChannel ops st < totalChannels"
proof -
  let ?chanEnt = "map (calcEntropy ops st) [0..<totalChannels]"
  have "findSmallestChannel ops st \<in> set (0 # [1..<totalChannels])"
    unfolding findSmallestChannel_def Let_def
    by (rule fold_choice_member
          [where P = "\<lambda>i mn. d_lt ops (?chanEnt ! i) mn" and g = "\<lambda>i. ?chanEnt ! i"])
  then show ?thesis
    by (auto simp: totalChannels_def)
qed

lemma decode_encode_pass:
  assumes "idx \<le> 14" and "filter_vars st = filter_vars (reset_variables init_globals)"
  shows "decode (fst (encode_pass idx data st)) = Inr data"
proof -
  let ?ch = "uint (indexToChannel ! idx)"
  let ?out = "fst (run_buffer (encode_byte idx ?ch) data st)"
  have tab: "table_read (int idx) = Inr (indexToChannel ! idx)"
    using assms(1) by (simp add: table_read_def indexToChannel_def)
  have "decode (word_of_nat idx # ?out)
        = Inr (fst (run_buffer (decode_byte idx ?ch) ?out (reset_variables init_globals)))"
    using assms(1)
    by (simp add: decode_def decode_from_def getc_def header_value tab run_blocks_whole
          Let_def)
  also have "\<dots> = Inr data"
    using buffer_roundtrip [OF assms(2), of idx ?ch data] by simp
  finally show ?thesis
    by (simp add: encode_pass_output)
qed

text \<open>
  The whole program: decoding what encoding wrote gives back the file, for both sources,
  whichever candidate the comparison of the entropies chose.
\<close>

lemma decode_encode: "decode (encode ops split file) = Inr file"
proof -
  let ?st1 = "scan_pass split file init_globals"
  have "findSmallestChannel ops ?st1 \<le> 14"
    using findSmallestChannel_range [of ops ?st1] by (simp add: totalChannels_def)
  moreover have "filter_vars (reset_variables ?st1) = filter_vars (reset_variables init_globals)"
    using d_scan_pass [of split "file" init_globals]
    by (simp add: filter_vars_def reset_variables_def init_globals_def)
  ultimately show ?thesis
    unfolding encode_def Let_def by (rule decode_encode_pass)
qed

end
